theory Spec2Isabelle
  imports Complex_Main "HOL-Library.Word"
begin

section \<open>Binary floating point\<close>

text \<open>
  The kernel computes with \<^verbatim>\<open>float\<close> (IEEE 754 binary32) and, in \<^verbatim>\<open>set_phase\<close> and
  \<^verbatim>\<open>create_taps\<close>, with \<^verbatim>\<open>double\<close> (binary64). A finite value is kept as
  mantissa and binary exponent, \<open>Fin m e\<close> standing for \<open>m * 2 ^ e\<close>; the two infinities
  and NaN are values of their own. Negative zero is identified with zero. Every
  arithmetic operation computes the exact result and rounds it to nearest, ties to
  even, as the default rounding mode does.
\<close>

datatype fp = Fin int int | PInf | NInf | NaN

definition fval :: "int \<Rightarrow> int \<Rightarrow> rat" where
  "fval m e = (if 0 \<le> e then of_int m * 2 ^ nat e else of_int m / 2 ^ nat (- e))"

fun valof :: "fp \<Rightarrow> rat" where
  "valof (Fin m e) = fval m e"
| "valof _ = 0"

fun finite_fp :: "fp \<Rightarrow> bool" where
  "finite_fp (Fin m e) = True"
| "finite_fp _ = False"

text \<open>Number of binary digits of a positive integer.\<close>

function bitlen :: "int \<Rightarrow> nat" where
  "bitlen n = (if n \<le> 0 then 0 else Suc (bitlen (n div 2)))"
  by pat_completeness auto
termination
  by (relation "measure nat") auto

declare bitlen.simps [simp del]

text \<open>\<open>n / d\<close> rounded to the nearest integer, a tie to the even one (\<open>0 \<le> n\<close>, \<open>0 < d\<close>).\<close>

definition rhe_div :: "int \<Rightarrow> int \<Rightarrow> int" where
  "rhe_div n d = (let q = n div d; r = n mod d
                  in if 2 * r < d then q else if d < 2 * r then q + 1
                     else if even q then q else q + 1)"

text \<open>\<open>\<lfloor>log\<^sub>2 (n / d)\<rfloor>\<close> for positive \<open>n\<close> and \<open>d\<close>.\<close>

definition ilog2 :: "int \<Rightarrow> int \<Rightarrow> int" where
  "ilog2 n d = (let k = int (bitlen n) - int (bitlen d)
                in if (if 0 \<le> k then d * 2 ^ nat k \<le> n else d \<le> n * 2 ^ nat (- k))
                   then k else k - 1)"

text \<open>
  \<open>rne p emin n d e\<close> rounds the positive number \<open>n / d * 2 ^ e\<close> to \<open>p\<close> significant
  bits, the unit in the last place never below \<open>2 ^ emin\<close> (gradual underflow);
  \<open>rne_exp\<close> is the exponent of that unit. The result is the mantissa and its
  exponent.
\<close>

definition rne_exp :: "nat \<Rightarrow> int \<Rightarrow> int \<Rightarrow> int \<Rightarrow> int \<Rightarrow> int" where
  "rne_exp p emin n d e = max (ilog2 n d + e - (int p - 1)) emin"

definition rne :: "nat \<Rightarrow> int \<Rightarrow> int \<Rightarrow> int \<Rightarrow> int \<Rightarrow> int \<times> int" where
  "rne p emin n d e =
     (let t = rne_exp p emin n d e
      in (rhe_div (if t \<le> e then n * 2 ^ nat (e - t) else n)
                  (if t \<le> e then d else d * 2 ^ nat (t - e)), t))"

text \<open>
  Rounding of the signed number \<open>n / d * 2 ^ e\<close> (\<open>0 < d\<close>) into a format of \<open>p\<close>
  significant bits whose finite values lie below \<open>2 ^ emax\<close>: a result that
  reaches \<open>2 ^ emax\<close> is an infinity.
\<close>

definition fp_round :: "nat \<Rightarrow> int \<Rightarrow> int \<Rightarrow> int \<Rightarrow> int \<Rightarrow> int \<Rightarrow> fp" where
  "fp_round p emin emax n d e =
     (if n = 0 then Fin 0 0
      else let (m, t) = rne p emin \<bar>n\<bar> d e
           in if emax < int (bitlen m) + t then (if n < 0 then NInf else PInf)
              else Fin (sgn n * m) t)"

definition round32 :: "int \<Rightarrow> int \<Rightarrow> int \<Rightarrow> fp" where
  "round32 = fp_round 24 (- 149) 128"

definition round64 :: "int \<Rightarrow> int \<Rightarrow> int \<Rightarrow> fp" where
  "round64 = fp_round 53 (- 1074) 1024"

fun fneg :: "fp \<Rightarrow> fp" where
  "fneg (Fin m e) = Fin (- m) e"
| "fneg PInf = NInf"
| "fneg NInf = PInf"
| "fneg NaN = NaN"

text \<open>Single precision addition, subtraction and multiplication.\<close>

fun fadd :: "fp \<Rightarrow> fp \<Rightarrow> fp" where
  "fadd (Fin m1 e1) (Fin m2 e2) =
     (let e = min e1 e2 in round32 (m1 * 2 ^ nat (e1 - e) + m2 * 2 ^ nat (e2 - e)) 1 e)"
| "fadd NaN y = NaN"
| "fadd x NaN = NaN"
| "fadd PInf NInf = NaN"
| "fadd NInf PInf = NaN"
| "fadd PInf y = PInf"
| "fadd NInf y = NInf"
| "fadd x PInf = PInf"
| "fadd x NInf = NInf"

definition fsub :: "fp \<Rightarrow> fp \<Rightarrow> fp" where
  "fsub x y = fadd x (fneg y)"

fun fmul :: "fp \<Rightarrow> fp \<Rightarrow> fp" where
  "fmul (Fin m1 e1) (Fin m2 e2) = round32 (m1 * m2) 1 (e1 + e2)"
| "fmul NaN y = NaN"
| "fmul x NaN = NaN"
| "fmul (Fin m e) y = (if m = 0 then NaN else if 0 < m then y else fneg y)"
| "fmul x (Fin m e) = (if m = 0 then NaN else if 0 < m then x else fneg x)"
| "fmul PInf y = y"
| "fmul NInf y = fneg y"

text \<open>Division, rounded by \<open>rnd\<close> (\<open>round32\<close> for float, \<open>round64\<close> for double).\<close>

fun fp_div :: "(int \<Rightarrow> int \<Rightarrow> int \<Rightarrow> fp) \<Rightarrow> fp \<Rightarrow> fp \<Rightarrow> fp" where
  "fp_div rnd (Fin m1 e1) (Fin m2 e2) =
     (if m2 = 0 then (if m1 = 0 then NaN else if 0 < m1 then PInf else NInf)
      else rnd (m1 * sgn m2) \<bar>m2\<bar> (e1 - e2))"
| "fp_div rnd NaN y = NaN"
| "fp_div rnd x NaN = NaN"
| "fp_div rnd (Fin m e) y = Fin 0 0"
| "fp_div rnd x (Fin m e) = (if 0 \<le> m then x else fneg x)"
| "fp_div rnd x y = NaN"

definition fdiv :: "fp \<Rightarrow> fp \<Rightarrow> fp" where
  "fdiv = fp_div round32"

definition ddiv :: "fp \<Rightarrow> fp \<Rightarrow> fp" where
  "ddiv = fp_div round64"

text \<open>Conversion of a double to float, and of an unsigned integer to float.\<close>

fun to_float :: "fp \<Rightarrow> fp" where
  "to_float (Fin m e) = round32 m 1 e"
| "to_float x = x"

definition float_of_nat :: "nat \<Rightarrow> fp" where
  "float_of_nat n = round32 (int n) 1 0"

text \<open>\<^verbatim>\<open>floor\<close>, and \<^verbatim>\<open>fmodf(x, 1.0)\<close>; both are exact.\<close>

fun ffloor :: "fp \<Rightarrow> fp" where
  "ffloor (Fin m e) = (if 0 \<le> e then Fin m e else Fin (m div 2 ^ nat (- e)) 0)"
| "ffloor x = x"

fun fmodf1 :: "fp \<Rightarrow> fp" where
  "fmodf1 (Fin m e) = (if 0 \<le> e then Fin 0 0 else Fin (sgn m * (\<bar>m\<bar> mod 2 ^ nat (- e))) e)"
| "fmodf1 x = NaN"

text \<open>
  Conversion to an integer type truncates towards zero; the behaviour is undefined
  (\<open>None\<close>) when the truncated value is not a value of the integer type, and for an
  infinity or NaN.
\<close>

fun ftrunc :: "fp \<Rightarrow> int option" where
  "ftrunc (Fin m e) =
     Some (if 0 \<le> e then m * 2 ^ nat e else sgn m * (\<bar>m\<bar> div 2 ^ nat (- e)))"
| "ftrunc x = None"

definition to_int :: "fp \<Rightarrow> int option" where
  "to_int x = (case ftrunc x of None \<Rightarrow> None
               | Some v \<Rightarrow> if - (2 ^ 31) \<le> v \<and> v < 2 ^ 31 then Some v else None)"

definition to_uint :: "fp \<Rightarrow> 32 word option" where
  "to_uint x = (case ftrunc x of None \<Rightarrow> None
                | Some v \<Rightarrow> if 0 \<le> v \<and> v < 2 ^ 32 then Some (word_of_int v) else None)"

text \<open>Comparison; every comparison with NaN is false.\<close>

fun fless :: "fp \<Rightarrow> fp \<Rightarrow> bool" where
  "fless (Fin m1 e1) (Fin m2 e2) =
     (let e = min e1 e2 in m1 * 2 ^ nat (e1 - e) < m2 * 2 ^ nat (e2 - e))"
| "fless NaN y = False"
| "fless x NaN = False"
| "fless x NInf = False"
| "fless PInf y = False"
| "fless x y = True"

fun fle :: "fp \<Rightarrow> fp \<Rightarrow> bool" where
  "fle (Fin m1 e1) (Fin m2 e2) =
     (let e = min e1 e2 in m1 * 2 ^ nat (e1 - e) \<le> m2 * 2 ^ nat (e2 - e))"
| "fle NaN y = False"
| "fle x NaN = False"
| "fle NInf y = True"
| "fle x PInf = True"
| "fle x y = False"

text \<open>
  \<^verbatim>\<open>gr_complex\<close> is \<^verbatim>\<open>std::complex<float>\<close>: the sum of two complex numbers and the
  product of a complex number with a float work on the two components.
\<close>

type_synonym cplx = "fp \<times> fp"

definition cadd :: "cplx \<Rightarrow> cplx \<Rightarrow> cplx" where
  "cadd a b = (fadd (fst a) (fst b), fadd (snd a) (snd b))"

definition cscale :: "cplx \<Rightarrow> fp \<Rightarrow> cplx" where
  "cscale a x = (fmul (fst a) x, fmul (snd a) x)"

section \<open>The resampler kernel\<close>

text \<open>
  The members of \<^verbatim>\<open>pfb_arb_resampler_ccf\<close>. The class declaration is not among the
  sources; the member types are read off their uses: the counters are
  \<^verbatim>\<open>unsigned int\<close>, the rates' residue and the accumulator are \<^verbatim>\<open>float\<close>. An FIR
  filter object is represented by the taps it holds: \<open>d_filters\<close> and
  \<open>d_diff_filters\<close> list the taps of the filter objects, \<open>d_taps\<close> and \<open>d_dtaps\<close>
  are the tap matrices that \<^verbatim>\<open>taps()\<close> reports.
\<close>

record resampler =
  d_int_rate :: "32 word"
  d_dec_rate :: "32 word"
  d_flt_rate :: fp
  d_acc :: fp
  d_last_filter :: "32 word"
  d_taps_per_filter :: "32 word"
  d_filters :: "fp list list"
  d_diff_filters :: "fp list list"
  d_taps :: "fp list list"
  d_dtaps :: "fp list list"

text \<open>
  \<open>RuntimeError\<close> is the \<^verbatim>\<open>std::runtime_error\<close> thrown by \<^verbatim>\<open>set_phase\<close>, the only
  exception of the kernel. \<open>Undefined\<close> marks undefined behaviour: a conversion of
  a floating point value that the integer type cannot hold, a vector access out of
  range, the use of an uninitialised variable, a division by zero.
\<close>

datatype error = RuntimeError | Undefined

subsection \<open>Rate and phase\<close>

definition set_rate :: "resampler \<Rightarrow> fp \<Rightarrow> error + resampler" where
  "set_rate s rate =
     (let q = fdiv (float_of_nat (unat (d_int_rate s))) rate
      in case to_uint (ffloor q) of
           None \<Rightarrow> Inl Undefined
         | Some dec \<Rightarrow>
             Inr (s\<lparr>d_dec_rate := dec, d_flt_rate := fsub q (float_of_nat (unat dec))\<rparr>))"

text \<open>The double \<^verbatim>\<open>M_PI\<close> of the C library, and \<^verbatim>\<open>2.0*M_PI\<close>.\<close>

definition M_PI :: fp where
  "M_PI = Fin 884279719003555 (- 48)"

definition two_pi :: fp where
  "two_pi = Fin 884279719003555 (- 47)"

definition set_phase :: "resampler \<Rightarrow> fp \<Rightarrow> error + resampler" where
  "set_phase s ph =
     (if fless ph (Fin 0 0) \<or> fle two_pi ph then Inl RuntimeError
      else let ph_diff = to_float (ddiv two_pi (float_of_nat (length (d_filters s))))
           in case to_int (fdiv ph ph_diff) of
                None \<Rightarrow> Inl Undefined
              | Some k \<Rightarrow> Inr (s\<lparr>d_last_filter := word_of_int k\<rparr>))"

definition phase :: "resampler \<Rightarrow> fp" where
  "phase s =
     (let ph_diff = to_float (ddiv two_pi (float_of_nat (length (d_filters s))))
      in fmul (float_of_nat (unat (d_last_filter s))) ph_diff)"

subsection \<open>Taps\<close>

text \<open>
  \<^verbatim>\<open>create_diff_taps\<close>: the loop pushes \<open>newtaps[i+1] - newtaps[i]\<close> for
  \<open>i < newtaps.size()-1\<close>, then the last difference once more. With one tap the
  loop body never runs and the variable pushed is uninitialised; with none the
  unsigned bound wraps around and the loop reads past the vector.
\<close>

fun tap_diffs :: "fp list \<Rightarrow> fp list" where
  "tap_diffs (a # b # xs) = fsub b a # tap_diffs (b # xs)"
| "tap_diffs xs = []"

definition create_diff_taps :: "fp list \<Rightarrow> error + fp list" where
  "create_diff_taps newtaps =
     (if length newtaps < 2 then Inl Undefined
      else let difftaps = tap_diffs newtaps in Inr (difftaps @ [last difftaps]))"

text \<open>
  The padding loop of \<^verbatim>\<open>create_taps\<close> compares the size, converted to float, with the
  32-bit product \<open>d_int_rate*d_taps_per_filter\<close>, converted to float as well.
\<close>

function pad_taps :: "fp list \<Rightarrow> 32 word \<Rightarrow> fp list" where
  "pad_taps tmp_taps n =
     (if fless (float_of_nat (length tmp_taps)) (float_of_nat (unat n))
      then pad_taps (tmp_taps @ [Fin 0 0]) n else tmp_taps)"
  by pat_completeness auto

definition tap_at :: "fp list \<Rightarrow> nat \<Rightarrow> fp option" where
  "tap_at tmp_taps k = (if k < length tmp_taps then Some (tmp_taps ! k) else None)"

text \<open>The taps \<open>tmp_taps[i + j*d_int_rate]\<close> for \<open>j < d_taps_per_filter\<close>; the index is
  computed in \<^verbatim>\<open>unsigned int\<close>.\<close>

definition tap_row :: "fp list \<Rightarrow> 32 word \<Rightarrow> 32 word \<Rightarrow> nat \<Rightarrow> fp list option" where
  "tap_row tmp_taps n tpf i =
     those (map (\<lambda>j. tap_at tmp_taps (unat (of_nat i + of_nat j * n :: 32 word)))
                [0 ..< unat tpf])"

text \<open>The partition loop over \<open>i\<close>: row \<open>d_int_rate-1-i\<close> of the matrix and the filter
  object \<open>i\<close> receive the taps read at stride \<open>d_int_rate\<close> from offset \<open>i\<close>.\<close>

fun partition_taps ::
  "fp list \<Rightarrow> 32 word \<Rightarrow> 32 word \<Rightarrow> nat list \<Rightarrow> fp list list \<times> fp list list
     \<Rightarrow> error + fp list list \<times> fp list list" where
  "partition_taps tmp_taps n tpf [] (ourtaps, ourfilter) = Inr (ourtaps, ourfilter)"
| "partition_taps tmp_taps n tpf (i # is) (ourtaps, ourfilter) =
     (case tap_row tmp_taps n tpf i of
        None \<Rightarrow> Inl Undefined
      | Some row \<Rightarrow>
          if i < length ourfilter
          then partition_taps tmp_taps n tpf is
                 (ourtaps[unat n - 1 - i := row], ourfilter[i := row])
          else Inl Undefined)"

text \<open>
  \<^verbatim>\<open>create_taps\<close> returns the new \<open>d_taps_per_filter\<close>, the tap matrix and the taps
  of the filter objects. \<open>ceil((double)ntaps/(double)d_int_rate)\<close> is the exact
  ceiling of the quotient: both operands are 32-bit integers, so the rounded
  quotient of two doubles is an integer exactly when the quotient is. With no
  filter the quotient is an infinity or NaN and its conversion is undefined.
\<close>

definition create_taps ::
  "32 word \<Rightarrow> fp list \<Rightarrow> fp list list \<Rightarrow> error + 32 word \<times> fp list list \<times> fp list list" where
  "create_taps n newtaps ourfilter =
     (let ntaps = (of_nat (length newtaps) :: 32 word)
      in if n = 0 then Inl Undefined
         else let tpf = (of_nat ((unat ntaps + unat n - 1) div unat n) :: 32 word);
                  tmp_taps = pad_taps newtaps (n * tpf)
              in case partition_taps tmp_taps n tpf [0 ..< unat n]
                        (replicate (unat n) [], ourfilter) of
                   Inl e \<Rightarrow> Inl e
                 | Inr (ourtaps, ourfilter') \<Rightarrow> Inr (tpf, ourtaps, ourfilter'))"

definition set_taps :: "resampler \<Rightarrow> fp list \<Rightarrow> error + resampler" where
  "set_taps s taps =
     (case create_diff_taps taps of
        Inl e \<Rightarrow> Inl e
      | Inr dtaps \<Rightarrow>
          (case create_taps (d_int_rate s) taps (d_filters s) of
             Inl e \<Rightarrow> Inl e
           | Inr (tpf, ourtaps, ourfilter) \<Rightarrow>
               (case create_taps (d_int_rate s) dtaps (d_diff_filters s) of
                  Inl e \<Rightarrow> Inl e
                | Inr (tpf', ourdtaps, ourdfilter) \<Rightarrow>
                    Inr (s\<lparr>d_taps_per_filter := tpf', d_taps := ourtaps,
                           d_filters := ourfilter, d_dtaps := ourdtaps,
                           d_diff_filters := ourdfilter\<rparr>))))"

text \<open>The constructor: every filter object starts with an empty tap vector.\<close>

definition pfb_arb_resampler_ccf :: "fp \<Rightarrow> fp list \<Rightarrow> 32 word \<Rightarrow> error + resampler" where
  "pfb_arb_resampler_ccf rate taps filter_size =
     (case set_rate \<lparr>d_int_rate = filter_size, d_dec_rate = 0, d_flt_rate = Fin 0 0,
                      d_acc = Fin 0 0, d_last_filter = 0, d_taps_per_filter = 0,
                      d_filters = [], d_diff_filters = [], d_taps = [], d_dtaps = []\<rparr> rate of
        Inl e \<Rightarrow> Inl e
      | Inr s \<Rightarrow>
          set_taps (s\<lparr>d_last_filter := 0,
                      d_filters := replicate (unat filter_size) [],
                      d_diff_filters := replicate (unat filter_size) []\<rparr>) taps)"

subsection \<open>Filtering\<close>

text \<open>
  The local variables of \<^verbatim>\<open>filter\<close>, with the output memory and a log of the input
  offsets handed to the FIR filters. \<open>l_i\<close> and \<open>l_count\<close> are \<^verbatim>\<open>int\<close>, 32 bits wide:
  an increment or a sum that leaves \<open>[INT_MIN, INT_MAX]\<close> is undefined behaviour.
  The FIR filter class is not among the sources: \<open>fir taps k\<close> stands for the sample
  that a filter object holding \<open>taps\<close> computes from the input at \<open>&input[k]\<close>.
\<close>

definition INT_MAX :: int where
  "INT_MAX = 2147483647"

definition INT_MIN :: int where
  "INT_MIN = - 2147483648"

record locals =
  l_i :: int
  l_count :: int
  l_j :: "32 word"
  l_out :: "int \<Rightarrow> cplx option"
  l_reads :: "int list"

text \<open>
  The inner loop \<^verbatim>\<open>while(j < d_int_rate)\<close>: the two FIR calls, the write to
  \<open>output[i]\<close>, \<open>i++\<close>, the update of the accumulator, of \<open>j\<close> (in \<^verbatim>\<open>unsigned int\<close>,
  wrapping around) and the reduction of the accumulator.
\<close>

partial_function (option) inner_loop ::
  "(fp list \<Rightarrow> int \<Rightarrow> cplx) \<Rightarrow> resampler \<Rightarrow> locals \<Rightarrow> (error + resampler \<times> locals) option" where
  "inner_loop fir s l =
     (if l_j l < d_int_rate s then
        if unat (l_j l) < length (d_filters s) \<and> unat (l_j l) < length (d_diff_filters s) then
          let o0 = fir (d_filters s ! unat (l_j l)) (l_count l);
              o1 = fir (d_diff_filters s ! unat (l_j l)) (l_count l);
              out = (l_out l)(l_i l \<mapsto> cadd o0 (cscale o1 (d_acc s)));
              acc = fadd (d_acc s) (d_flt_rate s)
          in if l_i l < INT_MAX then
               case to_int (ffloor acc) of
                 None \<Rightarrow> Some (Inl Undefined)
               | Some k \<Rightarrow>
                   inner_loop fir (s\<lparr>d_acc := fmodf1 acc\<rparr>)
                     (l\<lparr>l_i := l_i l + 1, l_j := l_j l + d_dec_rate s + word_of_int k,
                        l_out := out, l_reads := l_reads l @ [l_count l]\<rparr>)
             else Some (Inl Undefined)
        else Some (Inl Undefined)
      else Some (Inr (s, l)))"

text \<open>
  The outer loop \<^verbatim>\<open>while(i < nitems)\<close>. The quotient \<open>j / d_int_rate\<close> is an
  \<^verbatim>\<open>unsigned int\<close>; its conversion to \<^verbatim>\<open>int\<close> keeps the 32 bits.
\<close>

partial_function (option) outer_loop ::
  "(fp list \<Rightarrow> int \<Rightarrow> cplx) \<Rightarrow> int \<Rightarrow> resampler \<Rightarrow> locals
     \<Rightarrow> (error + resampler \<times> locals) option" where
  "outer_loop fir nitems s l =
     (if l_i l < nitems then
        case inner_loop fir s l of
          None \<Rightarrow> None
        | Some (Inl e) \<Rightarrow> Some (Inl e)
        | Some (Inr (s', l')) \<Rightarrow>
            if d_int_rate s' = 0 then Some (Inl Undefined)
            else let count = l_count l' + sint (l_j l' div d_int_rate s')
                 in if INT_MIN \<le> count \<and> count \<le> INT_MAX
                    then outer_loop fir nitems s'
                           (l'\<lparr>l_count := count, l_j := l_j l' mod d_int_rate s'\<rparr>)
                    else Some (Inl Undefined)
      else Some (Inr (s, l)))"

text \<open>
  The statements of \<^verbatim>\<open>filter(output, input, nitems)\<close> up to its closing brace:
  \<open>out\<close> is the memory at \<open>output\<close>, indexed from the pointer; the input pointer is
  part of \<open>fir\<close>. The result is the engine state and the local variables when the
  closing brace is reached.
\<close>

record filter_result =
  state :: resampler
  final :: locals

definition filter_body ::
  "(fp list \<Rightarrow> int \<Rightarrow> cplx) \<Rightarrow> resampler \<Rightarrow> (int \<Rightarrow> cplx option) \<Rightarrow> int
     \<Rightarrow> (error + filter_result) option" where
  "filter_body fir s out nitems =
     (case outer_loop fir nitems s
             \<lparr>l_i = 0, l_count = 0, l_j = d_last_filter s, l_out = out, l_reads = []\<rparr> of
        None \<Rightarrow> None
      | Some (Inl e) \<Rightarrow> Some (Inl e)
      | Some (Inr (s', l')) \<Rightarrow>
          Some (Inr \<lparr>state = s'\<lparr>d_last_filter := l_j l'\<rparr>, final = l'\<rparr>))"

text \<open>
  \<^verbatim>\<open>filter\<close> is declared to return an \<^verbatim>\<open>int\<close> and has no \<^verbatim>\<open>return\<close> statement: a
  call that reaches the closing brace flows off the end of the function, which is
  undefined behaviour. No call returns a value.
\<close>

definition filter_kernel ::
  "(fp list \<Rightarrow> int \<Rightarrow> cplx) \<Rightarrow> resampler \<Rightarrow> (int \<Rightarrow> cplx option) \<Rightarrow> int
     \<Rightarrow> (error + int \<times> filter_result) option" where
  "filter_kernel fir s out nitems =
     (case filter_body fir s out nitems of
        None \<Rightarrow> None
      | Some (Inl e) \<Rightarrow> Some (Inl e)
      | Some (Inr r) \<Rightarrow> Some (Inl Undefined))"







text \<open>The value of a complex sample, for the examples.\<close>

definition cval :: "cplx \<Rightarrow> rat \<times> rat" where
  "cval a = (valof (fst a), valof (snd a))"

text \<open>
  Values for the examples: an FIR stand-in whose sample tells the filter that
  produced it (its first tap, as the real part) and the input offset it read (as the
  imaginary part); the engine that the constructor builds for rate 4, four filters
  and the prototype \<open>1, 2, 4, 8\<close>; and the engine it builds for an infinite rate.
\<close>

definition tag_fir :: "fp list \<Rightarrow> int \<Rightarrow> cplx" where
  "tag_fir taps k = (case taps of [] \<Rightarrow> Fin 0 0 | t # ts \<Rightarrow> t, Fin k 0)"

definition engine4 :: resampler where
  "engine4 = \<lparr>d_int_rate = 4, d_dec_rate = 1, d_flt_rate = Fin 0 0, d_acc = Fin 0 0,
               d_last_filter = 0, d_taps_per_filter = 1,
               d_filters = [[Fin 1 0], [Fin 2 0], [Fin 4 0], [Fin 8 0]],
               d_diff_filters = [[Fin 8388608 (- 23)], [Fin 8388608 (- 22)],
                                 [Fin 8388608 (- 21)], [Fin 8388608 (- 21)]],
               d_taps = [[Fin 8 0], [Fin 4 0], [Fin 2 0], [Fin 1 0]],
               d_dtaps = [[Fin 8388608 (- 21)], [Fin 8388608 (- 21)],
                          [Fin 8388608 (- 22)], [Fin 8388608 (- 23)]]\<rparr>"

definition stalled4 :: resampler where
  "stalled4 = engine4\<lparr>d_dec_rate := 0\<rparr>"

text \<open>
  The engines that the constructor builds for rate 1, one filter and the prototype
  \<open>1, 2\<close>, and for rate 9, nine filters and the same prototype.
\<close>

definition engine1 :: resampler where
  "engine1 = \<lparr>d_int_rate = 1, d_dec_rate = 1, d_flt_rate = Fin 0 0, d_acc = Fin 0 0,
               d_last_filter = 0, d_taps_per_filter = 2,
               d_filters = [[Fin 1 0, Fin 2 0]],
               d_diff_filters = [[Fin 8388608 (- 23), Fin 8388608 (- 23)]],
               d_taps = [[Fin 1 0, Fin 2 0]],
               d_dtaps = [[Fin 8388608 (- 23), Fin 8388608 (- 23)]]\<rparr>"

definition engine9 :: resampler where
  "engine9 = \<lparr>d_int_rate = 9, d_dec_rate = 1, d_flt_rate = Fin 0 0, d_acc = Fin 0 0,
               d_last_filter = 0, d_taps_per_filter = 1,
               d_filters = [[Fin 1 0], [Fin 2 0], [Fin 0 0], [Fin 0 0], [Fin 0 0],
                            [Fin 0 0], [Fin 0 0], [Fin 0 0], [Fin 0 0]],
               d_diff_filters = [[Fin 8388608 (- 23)], [Fin 8388608 (- 23)], [Fin 0 0],
                                 [Fin 0 0], [Fin 0 0], [Fin 0 0], [Fin 0 0], [Fin 0 0],
                                 [Fin 0 0]],
               d_taps = [[Fin 0 0], [Fin 0 0], [Fin 0 0], [Fin 0 0], [Fin 0 0], [Fin 0 0],
                         [Fin 0 0], [Fin 2 0], [Fin 1 0]],
               d_dtaps = [[Fin 0 0], [Fin 0 0], [Fin 0 0], [Fin 0 0], [Fin 0 0], [Fin 0 0],
                          [Fin 0 0], [Fin 8388608 (- 23)], [Fin 8388608 (- 23)]]\<rparr>"

text \<open>The largest float below \<open>2\<pi>\<close>, \<^verbatim>\<open>0x40C90FDA\<close>.\<close>

definition below_two_pi :: fp where
  "below_two_pi = Fin 13176794 (- 21)"

text \<open>
  Three more engines: \<open>engine4\<close> after \<^verbatim>\<open>set_rate(8)\<close> (decimation rate 0, fractional
  rate \<open>1/2\<close>) and after \<^verbatim>\<open>set_rate\<close> with \<open>2 ^ - 29\<close> (decimation rate \<open>2 ^ 31\<close>), and
  the engine built for rate \<open>2.5\<close> with one filter, after one call of \<^verbatim>\<open>filter\<close> and
  \<^verbatim>\<open>set_rate\<close> with \<open>2 ^ 60\<close> (decimation rate 0, fractional rate \<open>2 ^ - 60\<close>).
\<close>

definition half4 :: resampler where
  "half4 = engine4\<lparr>d_dec_rate := 0, d_flt_rate := Fin 8388608 (- 24)\<rparr>"

definition fast4 :: resampler where
  "fast4 = engine4\<lparr>d_dec_rate := 2147483648\<rparr>"

definition slow1 :: resampler where
  "slow1 = engine1\<lparr>d_dec_rate := 0, d_flt_rate := Fin 8388608 (- 83),
                     d_acc := Fin 1677722 (- 23)\<rparr>"

declare inner_loop.simps [code] outer_loop.simps [code]

section \<open>Properties of rounding\<close>

lemma fval_powi: "fval m e = of_int m * 2 powi e"
  by (auto simp: fval_def power_int_def field_simps power_inverse nat_minus_as_int)

lemma bitlen_nonpos: "n \<le> 0 \<Longrightarrow> bitlen n = 0"
  by (simp add: bitlen.simps)

lemma bitlen_pos: "0 < n \<Longrightarrow> bitlen n = Suc (bitlen (n div 2))"
  by (subst bitlen.simps) simp

lemma bitlen_bounds: "0 < n \<Longrightarrow> 2 ^ (bitlen n - 1) \<le> n \<and> n < 2 ^ bitlen n"
proof (induction n rule: bitlen.induct)
  case (1 n)
  show ?case
  proof (cases "n div 2 \<le> 0")
    case True
    with 1(2) have "n = 1" by linarith
    then show ?thesis by (simp add: bitlen_pos bitlen_nonpos)
  next
    case False
    then have pos: "0 < n div 2" by simp
    from 1(1) 1(2) pos have ih: "2 ^ (bitlen (n div 2) - 1) \<le> n div 2" "n div 2 < 2 ^ bitlen (n div 2)"
      by auto
    have b: "bitlen n = Suc (bitlen (n div 2))" using 1(2) by (rule bitlen_pos)
    have bp: "0 < bitlen (n div 2)" using pos by (simp add: bitlen_pos)
    then obtain k where k: "bitlen (n div 2) = Suc k" by (cases "bitlen (n div 2)") auto
    have "2 * 2 ^ k \<le> n" using ih(1) k by simp (linarith)?
    moreover have "n < 2 * 2 ^ Suc k" using ih(2) k by simp (linarith)?
    ultimately show ?thesis using b k by simp
  qed
qed

lemma bitlen_le: "n < 2 ^ k \<Longrightarrow> bitlen n \<le> k"
proof (cases "0 < n")
  case True
  assume a: "n < 2 ^ k"
  show ?thesis
  proof (rule ccontr)
    assume "\<not> bitlen n \<le> k"
    then have "k \<le> bitlen n - 1" by simp
    then have "(2::int) ^ k \<le> 2 ^ (bitlen n - 1)" by (simp add: power_increasing)
    with bitlen_bounds[OF True] a show False by linarith
  qed
next
  case False
  then show ?thesis by (simp add: bitlen_nonpos)
qed

lemma bitlen_gt: "2 ^ k \<le> n \<Longrightarrow> k < bitlen n"
proof -
  assume a: "2 ^ k \<le> n"
  then have pos: "0 < n" by (smt (verit) zero_less_power)
  show ?thesis
  proof (rule ccontr)
    assume "\<not> k < bitlen n"
    then have "bitlen n \<le> k" by simp
    then have "(2::int) ^ bitlen n \<le> 2 ^ k" by (simp add: power_increasing)
    with bitlen_bounds[OF pos] a show False by linarith
  qed
qed


lemma powi_nat: "0 \<le> k \<Longrightarrow> (2::rat) powi k = 2 ^ nat k"
  by (simp add: power_int_def)

lemma powi_neg: "k \<le> 0 \<Longrightarrow> (2::rat) powi k = 1 / 2 ^ nat (- k)"
  by (simp add: power_int_def field_simps power_inverse)

lemma powi_add: "(2::rat) powi (a + b) = 2 powi a * 2 powi b"
  by (simp add: power_int_add)

lemma powi_diff: "(2::rat) powi (a - b) = 2 powi a / 2 powi b"
  by (simp add: power_int_diff)

lemma powi_mono: "a \<le> b \<Longrightarrow> (2::rat) powi a \<le> 2 powi b"
  by (simp add: power_int_increasing)


lemma powi_pos: "0 < (2::rat) powi a"
  by simp

lemma of_int_pow2_le: "(of_int (2 ^ k) :: rat) = 2 powi (int k)"
  by simp

text \<open>The quotient test of ilog2 is the comparison with a power of two.\<close>

lemma ilog2_test:
  assumes "0 < d"
  shows "(if 0 \<le> k then d * 2 ^ nat k \<le> n else d \<le> n * 2 ^ nat (- k))
          \<longleftrightarrow> 2 powi k \<le> (of_int n / of_int d :: rat)"
proof (cases "0 \<le> k")
  case True
  have "(d * 2 ^ nat k \<le> n) \<longleftrightarrow> (of_int (d * 2 ^ nat k) \<le> (of_int n :: rat))"
    by (simp only: of_int_le_iff)
  also have "\<dots> \<longleftrightarrow> 2 ^ nat k \<le> (of_int n / of_int d :: rat)"
    using assms by (simp add: field_simps)
  finally show ?thesis using True by (simp add: powi_nat)
next
  case False
  then have k: "k \<le> 0" by simp
  have "(d \<le> n * 2 ^ nat (- k)) \<longleftrightarrow> ((of_int d :: rat) \<le> of_int (n * 2 ^ nat (- k)))"
    by (simp only: of_int_le_iff)
  also have "\<dots> \<longleftrightarrow> 1 / 2 ^ nat (- k) \<le> (of_int n / of_int d :: rat)"
    using assms by (simp add: field_simps)
  finally show ?thesis using False k by (simp add: powi_neg)
qed

lemma bitlen_powi:
  assumes "0 < n"
  shows "2 powi (int (bitlen n) - 1) \<le> (of_int n :: rat)" "(of_int n :: rat) < 2 powi (int (bitlen n))"
proof -
  from bitlen_bounds[OF assms] have b: "2 ^ (bitlen n - 1) \<le> n" "n < 2 ^ bitlen n" by auto
  have pos: "0 < bitlen n" using assms by (simp add: bitlen_pos)
  then obtain k where k: "bitlen n = Suc k" by (cases "bitlen n") auto
  have "(of_int ((2::int) ^ k) :: rat) \<le> of_int n" using b(1) k by (simp only: of_int_le_iff diff_Suc_1)
  then have "(2::rat) powi (int k) \<le> of_int n" by simp
  moreover have "int (bitlen n) - 1 = int k" using k by simp
  ultimately show "2 powi (int (bitlen n) - 1) \<le> (of_int n :: rat)" by (simp only:)
  have "(of_int n :: rat) < of_int ((2::int) ^ bitlen n)" using b(2) by (simp only: of_int_less_iff)
  then show "(of_int n :: rat) < 2 powi (int (bitlen n))" by simp
qed

lemma ilog2_bounds:
  assumes "0 < n" "0 < d"
  shows "2 powi (ilog2 n d) \<le> (of_int n / of_int d :: rat)"
    and "(of_int n / of_int d :: rat) < 2 powi (ilog2 n d + 1)"
proof -
  let ?k = "int (bitlen n) - int (bitlen d)"
  let ?q = "of_int n / of_int d :: rat"
  have dpos: "(0::rat) < of_int d" using assms by simp
  have npos: "(0::rat) < of_int n" using assms by simp
  have lo: "2 powi (?k - 1) < ?q"
  proof -
    have e: "(?k - 1) + int (bitlen d) = int (bitlen n) - 1" by simp
    have "(2::rat) powi (?k - 1) * of_int d < 2 powi (?k - 1) * 2 powi (int (bitlen d))"
      using bitlen_powi(2)[OF assms(2)] powi_pos[of "?k - 1"] by (simp only: mult_less_cancel_left_pos)
    also have "\<dots> = 2 powi (int (bitlen n) - 1)"
      using powi_add[of "?k - 1" "int (bitlen d)"] by (simp only: e)
    also have "\<dots> \<le> of_int n" using bitlen_powi(1)[OF assms(1)] .
    finally show ?thesis using dpos by (simp only: pos_less_divide_eq)
  qed
  have hi: "?q < 2 powi (?k + 1)"
  proof -
    have e: "(?k + 1) + (int (bitlen d) - 1) = int (bitlen n)" by simp
    have "of_int n < (2::rat) powi (int (bitlen n))" using bitlen_powi(2)[OF assms(1)] .
    also have "\<dots> = 2 powi (?k + 1) * 2 powi (int (bitlen d) - 1)"
      using powi_add[of "?k + 1" "int (bitlen d) - 1"] by (simp only: e)
    also have "\<dots> \<le> 2 powi (?k + 1) * of_int d"
      using bitlen_powi(1)[OF assms(2)] powi_pos[of "?k + 1"] by (simp only: mult_le_cancel_left_pos)
    finally show ?thesis using dpos by (simp only: pos_divide_less_eq)
  qed
  have il: "ilog2 n d = (if 2 powi ?k \<le> ?q then ?k else ?k - 1)"
    unfolding ilog2_def Let_def using ilog2_test[OF assms(2), of ?k n] by simp
  show "2 powi (ilog2 n d) \<le> ?q" using il lo by (auto simp: less_imp_le)
  show "?q < 2 powi (ilog2 n d + 1)" using il hi by (auto simp: not_le)
qed


lemma int_div_ge:
  assumes "0 < (d::int)" "K * d \<le> n"
  shows "K \<le> n div d"
proof -
  have "(K * d) div d \<le> n div d" using assms(2) assms(1) by (rule zdiv_mono1)
  then show ?thesis using assms(1) by simp
qed

lemma int_div_lt:
  assumes "0 < (d::int)" "n < K * d"
  shows "n div d < K"
proof (rule ccontr)
  assume "\<not> n div d < K"
  then have "K \<le> n div d" by simp
  then have "K * d \<le> (n div d) * d" using assms(1) by (simp add: mult_right_mono)
  moreover have "(n div d) * d \<le> n"
    using div_mult_mod_eq[of n d] pos_mod_sign[OF assms(1), of n] by linarith
  ultimately show False using assms(2) by linarith
qed

lemma rhe_div_lower:
  assumes "0 < d" "K * d \<le> n"
  shows "K \<le> rhe_div n d"
proof -
  have "K \<le> n div d" using assms by (rule int_div_ge)
  then show ?thesis by (auto simp: rhe_div_def Let_def)
qed

lemma rhe_div_upper:
  assumes "0 < d" "n \<le> K * d"
  shows "rhe_div n d \<le> K"
proof (cases "n = K * d")
  case True
  then show ?thesis using assms by (simp add: rhe_div_def Let_def)
next
  case False
  then have "n < K * d" using assms by simp
  with assms(1) have "n div d < K" by (rule int_div_lt)
  then show ?thesis by (auto simp: rhe_div_def Let_def)
qed

lemma rhe_div_exact:
  assumes "0 < d"
  shows "rhe_div (Z * d) d = Z"
  using assms by (simp add: rhe_div_def Let_def)

text \<open>The quotient that rne rounds to an integer.\<close>

lemma rne_quot:
  assumes "0 < d"
  shows "(of_int (if t \<le> e then n * 2 ^ nat (e - t) else n) /
          of_int (if t \<le> e then d else d * 2 ^ nat (t - e)) :: rat)
          = of_int n / of_int d * 2 powi (e - t)"
proof (cases "t \<le> e")
  case True
  then show ?thesis by (simp add: powi_nat)
next
  case False
  then have "e - t \<le> 0" by simp
  then have "(2::rat) powi (e - t) = 1 / 2 ^ nat (- (e - t))" by (rule powi_neg)
  moreover have "- (e - t) = t - e" by simp
  ultimately show ?thesis using False by simp
qed


lemma rhe_div_le_rat:
  assumes "0 < D" "(of_int N / of_int D :: rat) \<le> of_int K"
  shows "rhe_div N D \<le> K"
proof -
  have "(of_int N :: rat) \<le> of_int K * of_int D"
    using assms by (simp add: pos_divide_le_eq)
  then have "(of_int N :: rat) \<le> of_int (K * D)" by simp
  then have "N \<le> K * D" by (simp only: of_int_le_iff)
  with assms(1) show ?thesis by (rule rhe_div_upper)
qed

lemma rhe_div_ge_rat:
  assumes "0 < D" "(of_int K :: rat) \<le> of_int N / of_int D"
  shows "K \<le> rhe_div N D"
proof -
  have "(of_int K * of_int D :: rat) \<le> of_int N"
    using assms by (simp add: pos_le_divide_eq)
  then have "(of_int (K * D) :: rat) \<le> of_int N" by simp
  then have "K * D \<le> N" by (simp only: of_int_le_iff)
  with assms(1) show ?thesis by (rule rhe_div_lower)
qed

lemma rhe_div_eq_rat:
  assumes "0 < D" "(of_int N / of_int D :: rat) = of_int Z"
  shows "rhe_div N D = Z"
  using rhe_div_le_rat[OF assms(1), of N Z] rhe_div_ge_rat[OF assms(1), of Z N] assms(2)
  by simp

lemma rne_snd: "snd (rne p emin n d e) = rne_exp p emin n d e"
  by (simp add: rne_def Let_def)

lemma rne_den_pos: "0 < d \<Longrightarrow> 0 < (if t \<le> e then d else d * 2 ^ nat (t - e) :: int)"
  by simp

text \<open>The scaled value \<open>v / 2 ^ t\<close> that is rounded to the mantissa.\<close>

lemma rne_fst_le:
  assumes "0 < d" "(of_int n / of_int d * 2 powi (e - rne_exp p emin n d e) :: rat) \<le> of_int K"
  shows "fst (rne p emin n d e) \<le> K"
  unfolding rne_def Let_def fst_conv
  by (rule rhe_div_le_rat[OF rne_den_pos[OF assms(1)]]) (simp only: rne_quot[OF assms(1)] assms(2))

lemma rne_fst_ge:
  assumes "0 < d" "(of_int K :: rat) \<le> of_int n / of_int d * 2 powi (e - rne_exp p emin n d e)"
  shows "K \<le> fst (rne p emin n d e)"
  unfolding rne_def Let_def fst_conv
  by (rule rhe_div_ge_rat[OF rne_den_pos[OF assms(1)]]) (simp only: rne_quot[OF assms(1)] assms(2))

lemma rne_fst_eq:
  assumes "0 < d" "(of_int n / of_int d * 2 powi (e - rne_exp p emin n d e) :: rat) = of_int Z"
  shows "fst (rne p emin n d e) = Z"
  unfolding rne_def Let_def fst_conv
  by (rule rhe_div_eq_rat[OF rne_den_pos[OF assms(1)]]) (simp only: rne_quot[OF assms(1)] assms(2))


lemma powi_le_cancel: "(2::rat) powi a \<le> 2 powi b \<Longrightarrow> a \<le> b"
proof (rule ccontr)
  assume h: "(2::rat) powi a \<le> 2 powi b" and "\<not> a \<le> b"
  then have "b < a" by simp
  then have "(2::rat) powi b < 2 powi a" by (rule power_int_strict_increasing) simp
  with h show False by simp
qed

lemma powi_lt_cancel: "(2::rat) powi a < 2 powi b \<Longrightarrow> a < b"
proof (rule ccontr)
  assume h: "(2::rat) powi a < 2 powi b" and "\<not> a < b"
  then have "b \<le> a" by simp
  then have "(2::rat) powi b \<le> 2 powi a" by (rule powi_mono)
  with h show False by simp
qed

lemma powi_of_int: "0 \<le> k \<Longrightarrow> (of_int (2 ^ nat k) :: rat) = 2 powi k"
  by (simp add: powi_nat)

lemma powi_shift: "(x::rat) * 2 powi (e - t) = x * 2 powi e / 2 powi t"
  by (simp add: powi_diff)

text \<open>Where the rounded value lies.\<close>

lemma rne_exp_le:
  assumes "0 < n" "0 < d" "1 \<le> p" "emin \<le> j"
    and "(of_int n / of_int d * 2 powi e :: rat) \<le> 2 powi j"
  shows "rne_exp p emin n d e \<le> j"
proof -
  let ?L = "ilog2 n d"
  have "(2::rat) powi (?L + e) = 2 powi ?L * 2 powi e" by (rule powi_add)
  also have "\<dots> \<le> of_int n / of_int d * 2 powi e"
    using ilog2_bounds(1)[OF assms(1,2)] powi_pos[of e] by (simp only: mult_le_cancel_right_pos)
  also have "\<dots> \<le> 2 powi j" by (rule assms(5))
  finally have "?L + e \<le> j" by (rule powi_le_cancel)
  then show ?thesis using assms(3,4) by (simp add: rne_exp_def)
qed

lemma rne_upper:
  assumes "0 < n" "0 < d" "1 \<le> p" "emin \<le> j"
    and v: "(of_int n / of_int d * 2 powi e :: rat) \<le> 2 powi j"
  shows "fval (fst (rne p emin n d e)) (snd (rne p emin n d e)) \<le> 2 powi j"
proof -
  let ?t = "rne_exp p emin n d e"
  let ?K = "(2::int) ^ nat (j - ?t)"
  have tj: "?t \<le> j" using assms by (rule rne_exp_le)
  have K: "(of_int ?K :: rat) = 2 powi (j - ?t)" using tj by (simp add: powi_nat)
  have "(of_int n / of_int d * 2 powi (e - ?t) :: rat) = of_int n / of_int d * 2 powi e / 2 powi ?t"
    by (rule powi_shift)
  also have "\<dots> \<le> 2 powi j / 2 powi ?t"
    by (rule divide_right_mono[OF v]) simp
  also have "\<dots> = of_int ?K" by (simp only: K powi_diff)
  finally have "fst (rne p emin n d e) \<le> ?K" using assms(2) by (intro rne_fst_le)
  then have "(of_int (fst (rne p emin n d e)) :: rat) \<le> of_int ?K" by (simp only: of_int_le_iff)
  then have "(of_int (fst (rne p emin n d e)) :: rat) * 2 powi ?t \<le> of_int ?K * 2 powi ?t"
    using powi_pos[of ?t] by (simp only: mult_le_cancel_right_pos)
  also have "\<dots> = 2 powi j" by (simp only: K powi_add[symmetric]) simp
  finally show ?thesis by (simp only: fval_powi rne_snd)
qed

lemma rne_lower_grid:
  assumes "0 < d" "rne_exp p emin n d e \<le> j"
    and v: "2 powi j \<le> (of_int n / of_int d * 2 powi e :: rat)"
  shows "2 powi j \<le> fval (fst (rne p emin n d e)) (snd (rne p emin n d e))"
proof -
  let ?t = "rne_exp p emin n d e"
  let ?K = "(2::int) ^ nat (j - ?t)"
  have K: "(of_int ?K :: rat) = 2 powi (j - ?t)" using assms(2) by (simp add: powi_nat)
  have "(of_int ?K :: rat) = 2 powi j / 2 powi ?t" by (simp only: K powi_diff)
  also have "\<dots> \<le> of_int n / of_int d * 2 powi e / 2 powi ?t"
    by (rule divide_right_mono[OF v]) simp
  also have "\<dots> = (of_int n / of_int d * 2 powi (e - ?t) :: rat)"
    by (rule powi_shift[symmetric])
  finally have "?K \<le> fst (rne p emin n d e)" using assms(1) by (intro rne_fst_ge)
  then have "(of_int ?K :: rat) \<le> of_int (fst (rne p emin n d e))" by (simp only: of_int_le_iff)
  then have "(of_int ?K :: rat) * 2 powi ?t \<le> of_int (fst (rne p emin n d e)) * 2 powi ?t"
    using powi_pos[of ?t] by (simp only: mult_le_cancel_right_pos)
  moreover have "(of_int ?K :: rat) * 2 powi ?t = 2 powi j" by (simp only: K powi_add[symmetric]) simp
  ultimately show ?thesis by (simp only: fval_powi rne_snd)
qed

lemma rne_lower:
  assumes "0 < n" "0 < d" "1 \<le> p" "emin \<le> j"
    and v: "2 powi j \<le> (of_int n / of_int d * 2 powi e :: rat)"
  shows "2 powi j \<le> fval (fst (rne p emin n d e)) (snd (rne p emin n d e))"
proof (cases "rne_exp p emin n d e \<le> j")
  case True
  with assms(2) show ?thesis using v by (rule rne_lower_grid)
next
  case False
  let ?L = "ilog2 n d"
  from False assms(4) have t: "rne_exp p emin n d e = ?L + e - (int p - 1)" "j < ?L + e - (int p - 1)"
    by (auto simp: rne_exp_def max_def split: if_splits)
  have le: "rne_exp p emin n d e \<le> ?L + e" using t(1) assms(3) by simp
  have "(2::rat) powi (?L + e) = 2 powi ?L * 2 powi e" by (rule powi_add)
  also have "\<dots> \<le> of_int n / of_int d * 2 powi e"
    using ilog2_bounds(1)[OF assms(1,2)] powi_pos[of e] by (simp only: mult_le_cancel_right_pos)
  finally have "2 powi (?L + e) \<le> fval (fst (rne p emin n d e)) (snd (rne p emin n d e))"
    by (rule rne_lower_grid[OF assms(2) le])
  moreover have "(2::rat) powi j \<le> 2 powi (?L + e)" using t(2) assms(3) by (intro powi_mono) simp
  ultimately show ?thesis by simp
qed


lemma rne_fst_nonneg:
  assumes "0 \<le> n" "0 < d"
  shows "0 \<le> fst (rne p emin n d e)"
proof -
  have "(0::rat) \<le> of_int n / of_int d * 2 powi (e - rne_exp p emin n d e)"
    using assms by simp
  then have "(of_int 0 :: rat) \<le> of_int n / of_int d * 2 powi (e - rne_exp p emin n d e)"
    by simp
  with assms(2) show ?thesis by (rule rne_fst_ge)
qed

lemma rne_exp_ge: "emin \<le> rne_exp p emin n d e"
  by (simp add: rne_exp_def)

lemma rne_mant_le:
  assumes "0 < n" "0 < d" "1 \<le> p"
  shows "fst (rne p emin n d e) \<le> 2 ^ p"
proof -
  let ?L = "ilog2 n d"
  let ?t = "rne_exp p emin n d e"
  have t: "e - ?t \<le> int p - 1 - ?L" by (simp add: rne_exp_def)
  have "(of_int n / of_int d * 2 powi (e - ?t) :: rat) \<le> 2 powi (?L + 1) * 2 powi (e - ?t)"
    using ilog2_bounds(2)[OF assms(1,2)] powi_pos[of "e - ?t"]
    by (simp only: mult_le_cancel_right_pos less_imp_le)
  also have "\<dots> \<le> 2 powi (?L + 1) * 2 powi (int p - 1 - ?L)"
    using powi_mono[OF t] powi_pos[of "?L + 1"] by (simp only: mult_le_cancel_left_pos)
  also have "\<dots> = 2 powi ((?L + 1) + (int p - 1 - ?L))" by (rule powi_add[symmetric])
  also have "(?L + 1) + (int p - 1 - ?L) = int p" by simp
  also have "(2::rat) powi (int p) = of_int (2 ^ p)" by simp
  finally show ?thesis using assms(2) by (intro rne_fst_le)
qed

lemma rne_exact:
  assumes "0 < n" "0 < d" "1 \<le> p" "emin \<le> g" "0 < K" "K \<le> 2 ^ p"
    and v: "(of_int n / of_int d * 2 powi e :: rat) = of_int K * 2 powi g"
  shows "fval (fst (rne p emin n d e)) (snd (rne p emin n d e)) = of_int K * 2 powi g"
proof -
  let ?L = "ilog2 n d"
  let ?t = "rne_exp p emin n d e"
  let ?v = "of_int n / of_int d * 2 powi e :: rat"
  have sh: "(of_int n / of_int d * 2 powi (e - ?t) :: rat) = ?v / 2 powi ?t"
    by (rule powi_shift)
  have "\<exists>Z. ?v / 2 powi ?t = of_int Z"
  proof (cases "?t \<le> g")
    case True
    have "?v / 2 powi ?t = of_int K * (2 powi g / 2 powi ?t)" by (simp only: v) simp
    also have "\<dots> = of_int K * 2 powi (g - ?t)" by (simp only: powi_diff)
    also have "\<dots> = of_int K * of_int (2 ^ nat (g - ?t))" using True by (simp add: powi_nat)
    also have "\<dots> = of_int (K * 2 ^ nat (g - ?t))" by simp
    finally show ?thesis by blast
  next
    case False
    with assms(4) have t: "?t = ?L + e - (int p - 1)" "g < ?L + e - (int p - 1)"
      by (auto simp: rne_exp_def max_def split: if_splits)
    have "(2::rat) powi (?L + e) = 2 powi ?L * 2 powi e" by (rule powi_add)
    also have "\<dots> \<le> ?v"
      using ilog2_bounds(1)[OF assms(1,2)] powi_pos[of e] by (simp only: mult_le_cancel_right_pos)
    finally have lo: "2 powi (?L + e) \<le> of_int K * (2::rat) powi g" by (simp only: v)
    have "(of_int K :: rat) \<le> of_int (2 ^ p)" using assms(6) by (simp only: of_int_le_iff)
    then have Kp: "(of_int K :: rat) \<le> 2 powi (int p)" by simp
    then have "of_int K * (2::rat) powi g \<le> 2 powi (int p) * 2 powi g"
      using powi_pos[of g] by (simp only: mult_le_cancel_right_pos)
    also have "\<dots> = 2 powi (int p + g)" by (rule powi_add[symmetric])
    finally have "2 powi (?L + e) \<le> (2::rat) powi (int p + g)" using lo by simp
    then have "?L + e \<le> int p + g" by (rule powi_le_cancel)
    with t have eq: "?L + e = int p + g" "?t = g + 1" by auto
    have "(2::rat) powi (int p) * 2 powi g \<le> of_int K * 2 powi g"
      using lo by (simp only: eq(1) powi_add)
    then have "(2::rat) powi (int p) \<le> of_int K"
      using powi_pos[of g] by (simp only: mult_le_cancel_right_pos)
    with Kp have K: "(of_int K :: rat) = 2 powi (int p)" by simp
    obtain p' where p': "p = Suc p'" using assms(3) by (cases p) auto
    have "?v / 2 powi ?t = 2 powi (int p) * 2 powi g / 2 powi (g + 1)" by (simp only: v K eq(2))
    also have "\<dots> = 2 powi (int p + g - (g + 1))" by (simp only: powi_diff powi_add)
    also have "int p + g - (g + 1) = int p'" using p' by simp
    also have "(2::rat) powi (int p') = of_int (2 ^ p')" by simp
    finally show ?thesis by blast
  qed
  then obtain Z where Z: "?v / 2 powi ?t = of_int Z" by blast
  have "fst (rne p emin n d e) = Z" using assms(2) by (rule rne_fst_eq) (simp only: sh Z)
  then have "fval (fst (rne p emin n d e)) (snd (rne p emin n d e)) = of_int Z * 2 powi ?t"
    by (simp only: fval_powi rne_snd)
  also have "\<dots> = ?v / 2 powi ?t * 2 powi ?t" by (simp only: Z)
  also have "\<dots> = ?v" by simp
  finally show ?thesis by (simp only: v)
qed

text \<open>Finite results of rounding, and overflow.\<close>

lemma fp_round_pos:
  assumes "0 < n"
  shows "fp_round p emin emax n d e =
           (if emax < int (bitlen (fst (rne p emin n d e))) + snd (rne p emin n d e) then PInf
            else Fin (fst (rne p emin n d e)) (snd (rne p emin n d e)))"
  using assms by (simp add: fp_round_def Let_def split_beta)

lemma fp_round_upper:
  assumes "0 < n" "0 < d" "1 \<le> p" "emin \<le> j" "j < emax"
    and v: "(of_int n / of_int d * 2 powi e :: rat) \<le> 2 powi j"
  shows "\<exists>m t. fp_round p emin emax n d e = Fin m t \<and> 0 \<le> m \<and> fval m t \<le> 2 powi j"
proof -
  let ?m = "fst (rne p emin n d e)"
  let ?t = "rne_exp p emin n d e"
  have tj: "?t \<le> j" using assms(1,2,3,4) v by (rule rne_exp_le)
  have up: "fval ?m (snd (rne p emin n d e)) \<le> 2 powi j" using assms(1,2,3,4) v by (rule rne_upper)
  have nn: "0 \<le> ?m" using assms(1,2) by (intro rne_fst_nonneg) simp_all
  have "(of_int ?m :: rat) * 2 powi ?t \<le> 2 powi j" using up by (simp only: fval_powi rne_snd)
  then have "(of_int ?m :: rat) \<le> 2 powi j / 2 powi ?t"
    using powi_pos[of ?t] by (simp only: pos_le_divide_eq)
  also have "\<dots> = 2 powi (j - ?t)" by (simp only: powi_diff)
  also have "\<dots> = of_int (2 ^ nat (j - ?t))" using tj by (simp add: powi_nat)
  finally have "?m \<le> 2 ^ nat (j - ?t)" by (simp only: of_int_le_iff)
  moreover have "(0::int) < 2 ^ nat (j - ?t)" by simp
  ultimately have "?m < 2 ^ Suc (nat (j - ?t))" unfolding power_Suc by linarith
  then have "bitlen ?m \<le> Suc (nat (j - ?t))" by (rule bitlen_le)
  then have "int (bitlen ?m) + ?t \<le> j + 1" using tj by simp
  then have "\<not> emax < int (bitlen ?m) + snd (rne p emin n d e)" using assms(5) by (simp add: rne_snd)
  then have "fp_round p emin emax n d e = Fin ?m (snd (rne p emin n d e))"
    using assms(1) by (simp add: fp_round_pos)
  with nn up show ?thesis by blast
qed

lemma fp_round_lower:
  assumes "0 < n" "0 < d" "1 \<le> p" "emin \<le> j"
    and v: "2 powi j \<le> (of_int n / of_int d * 2 powi e :: rat)"
  shows "fp_round p emin emax n d e = PInf \<or>
         (\<exists>m t. fp_round p emin emax n d e = Fin m t \<and> 2 powi j \<le> fval m t)"
  using rne_lower[OF assms] assms(1) by (auto simp: fp_round_pos)

lemma fless_Fin: "fless (Fin m1 e1) (Fin m2 e2) \<longleftrightarrow> fval m1 e1 < fval m2 e2"
proof -
  let ?e = "min e1 e2"
  have a: "(of_int (m * 2 ^ nat (x - ?e)) :: rat) * 2 powi ?e = of_int m * 2 powi x"
    if "?e \<le> x" for m x
  proof -
    have "(of_int (m * 2 ^ nat (x - ?e)) :: rat) = of_int m * 2 powi (x - ?e)"
      using that by (simp add: powi_nat)
    then have "(of_int (m * 2 ^ nat (x - ?e)) :: rat) * 2 powi ?e
                 = of_int m * (2 powi (x - ?e) * 2 powi ?e)" by simp
    also have "2 powi (x - ?e) * 2 powi ?e = (2::rat) powi (x - ?e + ?e)" by (rule powi_add[symmetric])
    finally show ?thesis by simp
  qed
  have "fless (Fin m1 e1) (Fin m2 e2)
          \<longleftrightarrow> (of_int (m1 * 2 ^ nat (e1 - ?e)) :: rat) < of_int (m2 * 2 ^ nat (e2 - ?e))"
    by (simp only: fless.simps Let_def of_int_less_iff)
  also have "\<dots> \<longleftrightarrow> (of_int (m1 * 2 ^ nat (e1 - ?e)) :: rat) * 2 powi ?e
                       < of_int (m2 * 2 ^ nat (e2 - ?e)) * 2 powi ?e"
    using powi_pos[of ?e] by (simp only: mult_less_cancel_right_pos)
  also have "\<dots> \<longleftrightarrow> fval m1 e1 < fval m2 e2"
    by (simp only: a[of e1 m1] a[of e2 m2] min.cobounded1 min.cobounded2 fval_powi)
  finally show ?thesis .
qed

lemma float_of_nat_small:
  assumes "a < 2 ^ 32"
  shows "\<exists>m t. float_of_nat a = Fin m t \<and> fval m t \<le> 2 powi 32"
proof (cases "a = 0")
  case True
  then show ?thesis by (simp add: float_of_nat_def round32_def fp_round_def fval_def)
next
  case False
  then have pos: "0 < int a" by simp
  have "(of_int (int a) :: rat) \<le> of_int (2 ^ 32)" using assms by (simp only: of_int_le_iff) simp
  then have "(of_int (int a) / of_int 1 * 2 powi 0 :: rat) \<le> 2 powi 32" by simp
  from fp_round_upper[OF pos _ _ _ _ this, of 24 "- 149" 128]
  show ?thesis by (auto simp: float_of_nat_def round32_def)
qed

lemma float_of_nat_large:
  assumes "2 ^ 32 \<le> a"
  shows "float_of_nat a = PInf \<or> (\<exists>m t. float_of_nat a = Fin m t \<and> 2 powi 32 \<le> fval m t)"
proof -
  have pos: "0 < int a" using assms by (smt (verit) of_nat_0_less_iff zero_less_power not_less le_trans zero_less_numeral neq0_conv less_nat_zero_code)
  have "(of_int (2 ^ 32) :: rat) \<le> of_int (int a)" using assms by (simp only: of_int_le_iff) simp
  then have "2 powi 32 \<le> (of_int (int a) / of_int 1 * 2 powi 0 :: rat)" by simp
  from fp_round_lower[OF pos _ _ _ this, of 24 "- 149" 128]
  show ?thesis by (auto simp: float_of_nat_def round32_def)
qed

lemma round32_zero: "round32 0 d e = Fin 0 0"
  by (simp add: round32_def fp_round_def)

lemma aligned_val:
  assumes "e \<le> x"
  shows "(of_int (m * 2 ^ nat (x - e)) :: rat) * 2 powi e = fval m x"
proof -
  have "(of_int (m * 2 ^ nat (x - e)) :: rat) = of_int m * 2 powi (x - e)"
    using assms by (simp add: powi_nat)
  then have "(of_int (m * 2 ^ nat (x - e)) :: rat) * 2 powi e
               = of_int m * (2 powi (x - e) * 2 powi e)" by simp
  also have "2 powi (x - e) * 2 powi e = (2::rat) powi (x - e + e)" by (rule powi_add[symmetric])
  finally show ?thesis by (simp add: fval_powi)
qed

lemma aligned_sum_val:
  "(of_int (m1 * 2 ^ nat (e1 - min e1 e2) + m2 * 2 ^ nat (e2 - min e1 e2)) :: rat) * 2 powi (min e1 e2)
     = fval m1 e1 + fval m2 e2"
proof -
  have "(of_int (m1 * 2 ^ nat (e1 - min e1 e2) + m2 * 2 ^ nat (e2 - min e1 e2)) :: rat) * 2 powi (min e1 e2)
        = of_int (m1 * 2 ^ nat (e1 - min e1 e2)) * 2 powi (min e1 e2)
          + of_int (m2 * 2 ^ nat (e2 - min e1 e2)) * 2 powi (min e1 e2)"
    by (simp only: of_int_add distrib_right)
  then show ?thesis by (simp only: aligned_val[of "min e1 e2" e1 m1] aligned_val[of "min e1 e2" e2 m2]
        min.cobounded1 min.cobounded2)
qed

lemma fval_nonneg: "0 \<le> m \<Longrightarrow> 0 \<le> fval m e"
  by (simp add: fval_powi)

lemma floor_small:
  assumes "0 \<le> m" "fval m e \<le> 2"
  shows "\<exists>k. to_int (ffloor (Fin m e)) = Some k \<and> 0 \<le> k \<and> k \<le> 2"
proof (cases "0 \<le> e")
  case True
  have "(of_int (m * 2 ^ nat e) :: rat) = fval m e" using True by (simp add: fval_def)
  also have "\<dots> \<le> of_int 2" using assms(2) by simp
  finally have "m * 2 ^ nat e \<le> 2" by (simp only: of_int_le_iff)
  moreover have "0 \<le> m * 2 ^ nat e" using assms(1) by simp
  ultimately show ?thesis using True by (simp add: to_int_def)
next
  case False
  let ?D = "(2::int) ^ nat (- e)"
  have D: "0 < ?D" by simp
  have "(of_int m :: rat) / of_int ?D \<le> of_int 2" using assms(2) False by (simp add: fval_def)
  then have "(of_int m :: rat) \<le> of_int 2 * of_int ?D" using D by (simp add: pos_divide_le_eq)
  then have "(of_int m :: rat) \<le> of_int (2 * ?D)" by simp
  then have "m \<le> 2 * ?D" by (simp only: of_int_le_iff)
  then have "m < 3 * ?D" using D by linarith
  with D have "m div ?D < 3" by (rule int_div_lt)
  moreover have "0 \<le> m div ?D" using assms(1) D by (simp add: pos_imp_zdiv_nonneg_iff)
  ultimately show ?thesis using False by (simp add: to_int_def)
qed

lemma pad_taps_bound:
  assumes "fless (float_of_nat a) (float_of_nat (unat (n :: 32 word)))"
  shows "a < 2 ^ 32"
proof (rule ccontr)
  assume "\<not> a < 2 ^ 32"
  then have big: "2 ^ 32 \<le> a" by simp
  have "unat n < 2 ^ 32" using unsigned_less[of n] by simp
  from float_of_nat_small[OF this] obtain m t where
    s: "float_of_nat (unat n) = Fin m t" "fval m t \<le> 2 powi 32" by blast
  from float_of_nat_large[OF big] show False
  proof
    assume "float_of_nat a = PInf"
    with assms s show False by simp
  next
    assume "\<exists>m t. float_of_nat a = Fin m t \<and> 2 powi 32 \<le> fval m t"
    then obtain m' t' where l: "float_of_nat a = Fin m' t'" "2 powi 32 \<le> fval m' t'" by blast
    from assms have "fless (Fin m' t') (Fin m t)" by (simp only: l(1) s(1))
    then have "fval m' t' < fval m t" by (simp only: fless_Fin)
    with l(2) s(2) show False by simp
  qed
qed

termination pad_taps
  by (relation "measure (\<lambda>(tmp_taps, n). 2 ^ 32 - length tmp_taps)")
     (auto dest: pad_taps_bound)

section \<open>Derivative taps\<close>





section \<open>Rate\<close>

lemma engine1_constructed:
  "pfb_arb_resampler_ccf (Fin 1 0) [Fin 1 0, Fin 2 0] 1 = Inr engine1"
  by code_simp

lemma fval_floor_nonneg_exp: "0 \<le> e \<Longrightarrow> fval m e = of_int (m * 2 ^ nat e)"
  by (simp add: fval_def)

lemma floor_fval: "\<lfloor>fval m e\<rfloor> = (if 0 \<le> e then m * 2 ^ nat e else m div 2 ^ nat (- e))"
proof (cases "0 \<le> e")
  case True
  then have "fval m e = of_int (m * 2 ^ nat e)" by (rule fval_floor_nonneg_exp)
  then have "\<lfloor>fval m e\<rfloor> = m * 2 ^ nat e" by (simp only: floor_of_int)
  then show ?thesis using True by simp
next
  case False
  have "\<lfloor>(of_int m :: rat) / of_int (2 ^ nat (- e))\<rfloor> = m div 2 ^ nat (- e)"
    by (rule floor_divide_of_int_eq)
  then show ?thesis using False by (simp add: fval_def)
qed

lemma ftrunc_ffloor: "ftrunc (ffloor (Fin m e)) = Some \<lfloor>fval m e\<rfloor>"
  by (simp add: floor_fval)

lemma to_uint_ffloor:
  "to_uint (ffloor (Fin m e)) =
     (if 0 \<le> \<lfloor>fval m e\<rfloor> \<and> \<lfloor>fval m e\<rfloor> < 2 ^ 32 then Some (word_of_int \<lfloor>fval m e\<rfloor>) else None)"
  unfolding to_uint_def ftrunc_ffloor by simp

lemma powi_not_neg: "\<not> (2::rat) powi e < 0"
  by (simp add: not_less)

lemma fval_neg_iff: "fval m e < 0 \<longleftrightarrow> m < 0"
  by (auto simp: fval_powi mult_less_0_iff powi_not_neg)

lemma fval_pos_iff: "0 < fval m e \<longleftrightarrow> 0 < m"
  by (auto simp: fval_powi zero_less_mult_iff powi_not_neg)

lemma float_of_nat_pos:
  assumes "0 < a" "a < 2 ^ 32"
  shows "\<exists>m t. float_of_nat a = Fin m t \<and> 0 < m \<and> 1 \<le> fval m t \<and> fval m t \<le> 2 powi 32"
proof -
  have pos: "0 < int a" using assms(1) by simp
  have "(of_int (int a) :: rat) \<le> of_int (2 ^ 32)" using assms(2) by (simp only: of_int_le_iff) simp
  then have up: "(of_int (int a) / of_int 1 * 2 powi 0 :: rat) \<le> 2 powi 32" by simp
  have "(of_int 1 :: rat) \<le> of_int (int a)" using assms(1) by simp
  then have lo: "2 powi 0 \<le> (of_int (int a) / of_int 1 * 2 powi 0 :: rat)" by simp
  from fp_round_upper[OF pos _ _ _ _ up, of 24 "- 149" 128] obtain m t where
    f: "float_of_nat a = Fin m t" "fval m t \<le> 2 powi 32"
    by (auto simp: float_of_nat_def round32_def)
  from fp_round_lower[OF pos _ _ _ lo, of 24 "- 149" 128] f(1)
  have "1 \<le> fval m t" by (auto simp: float_of_nat_def round32_def)
  moreover from this have "0 < m" using fval_pos_iff[of m t] by simp
  ultimately show ?thesis using f by blast
qed

text \<open>C9\<close>

text \<open>
  C9, amended. \<^verbatim>\<open>set_rate\<close> has no guard and throws nothing. For every finite
  \<open>rate \<le> 0\<close> on an engine with at least one filter, \<open>floor(d_int_rate/rate)\<close> is
  negative or infinite, so its conversion to \<^verbatim>\<open>unsigned int\<close> is undefined: the
  call ends in undefined behaviour, not in an error of its own.
\<close>

theorem set_rate_nonpositive:
  assumes "d_int_rate s \<noteq> 0" "m \<le> 0" "\<bar>fval m e\<bar> \<le> 2 ^ 128"
  shows "set_rate s (Fin m e) = Inl Undefined"
proof -
  have "0 < unat (d_int_rate s)" using assms(1) by (simp add: unat_gt_0)
  moreover have "unat (d_int_rate s) < 2 ^ 32" using unsigned_less[of "d_int_rate s"] by simp
  ultimately obtain mN tN where
    N: "float_of_nat (unat (d_int_rate s)) = Fin mN tN" "0 < mN" "1 \<le> fval mN tN"
    using float_of_nat_pos by blast
  let ?q = "fdiv (float_of_nat (unat (d_int_rate s))) (Fin m e)"
  have "to_uint (ffloor ?q) = None"
  proof (cases "m = 0")
    case True
    then have "?q = PInf" using N by (simp add: fdiv_def)
    then show ?thesis by (simp add: to_uint_def)
  next
    case False
    with assms(2) have neg: "m < 0" by simp
    let ?r = "rne 24 (- 149) mN (- m) (tN - e)"
    have q: "?q = fp_round 24 (- 149) 128 (- mN) (- m) (tN - e)"
      using neg N by (simp add: fdiv_def round32_def sgn_if)
    have dpos: "0 < - m" using neg by simp
    have rv: "fval (- m) e = \<bar>fval m e\<bar>" using neg by (simp add: fval_powi abs_mult)
    have "(2::rat) powi (- 128) = 1 / 2 ^ 128" by (simp add: powi_neg)
    also have "\<dots> \<le> 1 / fval (- m) e"
      using assms(3) rv fval_pos_iff[of "- m" e] dpos by (simp add: frac_le)
    also have "\<dots> \<le> fval mN tN / fval (- m) e"
      using N(3) fval_pos_iff[of "- m" e] dpos by (simp add: divide_right_mono)
    also have "\<dots> = of_int mN / of_int (- m) * 2 powi (tN - e)"
      by (simp add: fval_powi powi_diff)
    finally have lo: "2 powi (- 128) \<le> (of_int mN / of_int (- m) * 2 powi (tN - e) :: rat)" .
    have "2 powi (- 128) \<le> fval (fst ?r) (snd ?r)"
      using N(2) dpos _ _ lo by (rule rne_lower) simp_all
    then have "0 < fval (fst ?r) (snd ?r)" using powi_pos[of "- 128"] by linarith
    then have mpos: "0 < fst ?r" by (simp only: fval_pos_iff)
    have "?q = NInf \<or> ?q = Fin (- fst ?r) (snd ?r)"
      using N(2) by (auto simp: q fp_round_def Let_def split_beta sgn_if)
    then show ?thesis
    proof
      assume "?q = NInf"
      then show ?thesis by (simp add: to_uint_def)
    next
      assume f: "?q = Fin (- fst ?r) (snd ?r)"
      have "fval (- fst ?r) (snd ?r) < 0" using mpos by (simp add: fval_neg_iff)
      then have "\<lfloor>fval (- fst ?r) (snd ?r)\<rfloor> < 0" by (simp add: floor_less_iff)
      then show ?thesis unfolding f to_uint_ffloor by simp
    qed
  qed
  then show ?thesis by (simp add: set_rate_def Let_def)
qed

theorem set_rate_nonpositive_witness:
  "d_int_rate engine4 \<noteq> 0 \<and> (- 1 :: int) \<le> 0 \<and> \<bar>fval (- 1) 0\<bar> \<le> 2 ^ 128 \<and>
   set_rate engine4 (Fin (- 1) 0) = Inl Undefined"
proof -
  have h: "d_int_rate engine4 \<noteq> 0" "(- 1 :: int) \<le> 0" "\<bar>fval (- 1) 0\<bar> \<le> 2 ^ 128"
    by (simp_all add: engine4_def fval_def)
  from set_rate_nonpositive[OF h] h show ?thesis by simp
qed

text \<open>
  C9 as stated fails: for the rates \<open>-1\<close> and \<open>0\<close> the call runs into the undefined
  conversion, and for the rate \<open>-\<infinity>\<close> it returns normally with both rates zero.
\<close>

theorem set_rate_unguarded:
  "set_rate engine4 (Fin (- 1) 0) = Inl Undefined \<and>
   set_rate engine4 (Fin 0 0) = Inl Undefined \<and>
   set_rate engine4 NInf = Inr (engine4\<lparr>d_dec_rate := 0, d_flt_rate := Fin 0 0\<rparr>)"
  by code_simp

lemma fp_round_finite:
  assumes "0 < n" "0 < d" "1 \<le> p" "emin \<le> j" "j < emax"
    and v: "(of_int n / of_int d * 2 powi e :: rat) \<le> 2 powi j"
  shows "fp_round p emin emax n d e = Fin (fst (rne p emin n d e)) (snd (rne p emin n d e))"
proof -
  from fp_round_upper[OF assms] obtain m t where "fp_round p emin emax n d e = Fin m t" by blast
  then show ?thesis using assms(1) by (simp add: fp_round_pos split: if_splits)
qed

lemma fp_round_exact:
  assumes "0 < n" "0 < d" "1 \<le> p" "emin \<le> g" "0 < K" "K \<le> 2 ^ p"
    and v: "(of_int n / of_int d * 2 powi e :: rat) = of_int K * 2 powi g"
    and b: "(of_int K * 2 powi g :: rat) \<le> 2 powi j" "emin \<le> j" "j < emax"
  shows "\<exists>m t. fp_round p emin emax n d e = Fin m t \<and> 0 \<le> m \<and> fval m t = of_int K * 2 powi g"
proof -
  have up: "(of_int n / of_int d * 2 powi e :: rat) \<le> 2 powi j" using v b(1) by simp
  have "fp_round p emin emax n d e = Fin (fst (rne p emin n d e)) (snd (rne p emin n d e))"
    using assms(1,2,3) b(2,3) up by (rule fp_round_finite)
  moreover have "fval (fst (rne p emin n d e)) (snd (rne p emin n d e)) = of_int K * 2 powi g"
    using assms(1-6) v by (rule rne_exact)
  moreover have "0 \<le> fst (rne p emin n d e)" using assms(1,2) by (intro rne_fst_nonneg) simp_all
  ultimately show ?thesis by blast
qed

lemma fp_round_wf:
  assumes "0 < d" "1 \<le> p" "fp_round p emin emax n d e = Fin m t"
  shows "\<bar>m\<bar> \<le> 2 ^ p \<and> (m \<noteq> 0 \<longrightarrow> emin \<le> t) \<and> (0 \<le> n \<longrightarrow> 0 \<le> m)"
proof (cases "n = 0")
  case True
  with assms(3) show ?thesis by (simp add: fp_round_def)
next
  case False
  let ?r = "rne p emin \<bar>n\<bar> d e"
  from False have pos: "0 < \<bar>n\<bar>" by simp
  from assms(3) False have mt: "m = sgn n * fst ?r" "t = snd ?r"
    by (auto simp: fp_round_def Let_def split_beta split: if_splits)
  have a: "fst ?r \<le> 2 ^ p" using pos assms(1,2) by (rule rne_mant_le)
  have b: "0 \<le> fst ?r" using assms(1) by (intro rne_fst_nonneg) simp_all
  have c: "emin \<le> snd ?r" by (simp add: rne_snd rne_exp_ge)
  have "\<bar>m\<bar> = fst ?r" using False b by (simp add: mt(1) abs_mult)
  then show ?thesis using a b c mt False by (auto simp: sgn_if)
qed

lemma float_of_nat_fin:
  assumes "a < 2 ^ 32"
  shows "\<exists>m t. float_of_nat a = Fin m t \<and> 0 \<le> m"
proof (cases "a = 0")
  case True
  then show ?thesis by (simp add: float_of_nat_def round32_zero)
next
  case False
  then have "0 < a" by simp
  from float_of_nat_pos[OF this assms] show ?thesis by (auto intro: less_imp_le)
qed

text \<open>An integer that fits the single precision mantissa, scaled or not, converts exactly.\<close>

lemma float_of_nat_exact:
  assumes "0 \<le> k" "k < 2 ^ 32" "(of_int k :: rat) = of_int K * 2 powi g" "0 \<le> K" "K \<le> 2 ^ 24" "0 \<le> g"
  shows "\<exists>m t. float_of_nat (nat k) = Fin m t \<and> fval m t = of_int k"
proof (cases "k = 0")
  case True
  then show ?thesis by (simp add: float_of_nat_def round32_zero fval_def)
next
  case False
  with assms(1) have pos: "0 < k" by simp
  have Kpos: "0 < K"
  proof (rule ccontr)
    assume "\<not> 0 < K"
    with assms(4) have "K = 0" by simp
    with assms(3) pos show False by simp
  qed
  have v: "(of_int k / of_int 1 * 2 powi 0 :: rat) = of_int K * 2 powi g" using assms(3) by simp
  have "(of_int k :: rat) \<le> of_int (2 ^ 32)" using assms(2) by simp
  then have b: "(of_int K * 2 powi g :: rat) \<le> 2 powi 32" using assms(3) by simp
  from fp_round_exact[OF pos _ _ _ Kpos assms(5) v b, of "- 149" 128] assms(6)
  obtain m t where "fp_round 24 (- 149) 128 k 1 0 = Fin m t" "fval m t = of_int K * 2 powi g"
    by auto
  then show ?thesis using assms(1,3) by (auto simp: float_of_nat_def round32_def)
qed


text \<open>C7\<close>

lemma frac_fval:
  assumes "e < 0"
  shows "fval m e - of_int \<lfloor>fval m e\<rfloor> = of_int (m mod 2 ^ nat (- e)) * 2 powi e"
proof -
  let ?D = "(2::int) ^ nat (- e)"
  have D: "(of_int ?D :: rat) = 1 / 2 powi e" using assms by (simp add: powi_neg)
  have fl: "\<lfloor>fval m e\<rfloor> = m div ?D" using assms by (simp add: floor_fval)
  have "m = (m div ?D) * ?D + m mod ?D" by (rule div_mult_mod_eq[symmetric])
  then have "(of_int m :: rat) = of_int ((m div ?D) * ?D + m mod ?D)" by simp
  also have "\<dots> = of_int (m div ?D) * of_int ?D + of_int (m mod ?D)" by simp
  finally have "(of_int m :: rat) * 2 powi e
      = (of_int (m div ?D) * of_int ?D + of_int (m mod ?D)) * 2 powi e" by simp
  also have "\<dots> = of_int (m div ?D) * (of_int ?D * 2 powi e) + of_int (m mod ?D) * 2 powi e"
    by (simp only: distrib_right mult.assoc)
  also have "of_int ?D * (2::rat) powi e = 1" by (simp only: D) simp
  finally have "fval m e = of_int (m div ?D) + of_int (m mod ?D) * 2 powi e"
    by (simp only: fval_powi mult_1_right)
  then have "fval m e - of_int (m div ?D) = of_int (m mod ?D) * 2 powi e" by simp
  then show ?thesis by (simp only: fl)
qed

text \<open>
  C7, amended. For every \<open>rate > 0\<close> whose single precision quotient
  \<open>q = d_int_rate / rate\<close> is finite and below \<open>2 ^ 32\<close>, \<^verbatim>\<open>set_rate\<close> sets
  \<open>d_dec_rate = floor(q)\<close> and \<open>d_flt_rate = q - d_dec_rate\<close>, computed without a
  rounding error, with \<open>0 \<le> d_flt_rate < 1\<close>.
\<close>

theorem set_rate_spec:
  assumes pos: "fless (Fin 0 0) rate"
    and q: "fdiv (float_of_nat (unat (d_int_rate s))) rate = Fin mq tq"
    and small: "fval mq tq < 2 ^ 32"
  shows "\<exists>dec flt. set_rate s rate = Inr (s\<lparr>d_dec_rate := dec, d_flt_rate := flt\<rparr>) \<and>
           uint dec = \<lfloor>fval mq tq\<rfloor> \<and> finite_fp flt \<and>
           valof flt = fval mq tq - of_int \<lfloor>fval mq tq\<rfloor> \<and>
           0 \<le> valof flt \<and> valof flt < 1"
proof -
  let ?v = "fval mq tq"
  let ?k = "\<lfloor>?v\<rfloor>"
  have "unat (d_int_rate s) < 2 ^ 32" using unsigned_less[of "d_int_rate s"] by simp
  from float_of_nat_fin[OF this] obtain mN tN where
    N: "float_of_nat (unat (d_int_rate s)) = Fin mN tN" "0 \<le> mN" by blast
  have wf: "0 \<le> mq \<and> mq \<le> 2 ^ 24 \<and> (mq \<noteq> 0 \<longrightarrow> - 149 \<le> tq)"
  proof (cases rate)
    case (Fin m e)
    with pos have m: "0 < m" by (simp add: Let_def zero_less_mult_iff)
    from q have "fp_round 24 (- 149) 128 mN m (tN - e) = Fin mq tq"
      using m by (simp add: N Fin fdiv_def round32_def sgn_if)
    from fp_round_wf[OF m _ this] N(2) show ?thesis by auto
  next
    case PInf
    with q N show ?thesis by (simp add: fdiv_def)
  next
    case NInf
    with pos show ?thesis by simp
  next
    case NaN
    with pos show ?thesis by simp
  qed
  then have mq: "0 \<le> mq" "mq \<le> 2 ^ 24" "mq \<noteq> 0 \<Longrightarrow> - 149 \<le> tq" by simp_all
  have v0: "0 \<le> ?v" using mq(1) by (rule fval_nonneg)
  have k0: "0 \<le> ?k" using v0 by simp
  have "?v < of_int (2 ^ 32)" using small by simp
  then have k1: "?k < 2 ^ 32" by (simp only: floor_less_iff)
  let ?dec = "word_of_int ?k :: 32 word"
  have tu: "to_uint (ffloor (Fin mq tq)) = Some ?dec" unfolding to_uint_ffloor using k0 k1 by simp
  have ud: "uint ?dec = ?k" using k0 k1 by (simp add: uint_word_of_int take_bit_int_eq_self)
  then have nd: "unat ?dec = nat ?k" by (simp only: unat_eq_nat_uint)
  have "\<exists>K g. (of_int ?k :: rat) = of_int K * 2 powi g \<and> 0 \<le> K \<and> K \<le> 2 ^ 24 \<and> 0 \<le> g"
  proof (cases "0 \<le> tq")
    case True
    then have "(of_int ?k :: rat) = of_int mq * 2 powi tq"
      by (simp add: floor_fval powi_nat)
    with mq True show ?thesis by blast
  next
    case False
    let ?D = "(2::int) ^ nat (- tq)"
    have k: "?k = mq div ?D" using False by (simp add: floor_fval)
    have "mq div ?D \<le> mq div 1" using mq(1) by (intro zdiv_mono2) simp_all
    then have "?k \<le> 2 ^ 24" using mq(2) k by simp
    moreover have "(of_int ?k :: rat) = of_int ?k * 2 powi 0" by simp
    ultimately show ?thesis using k0 by blast
  qed
  then obtain K g where "(of_int ?k :: rat) = of_int K * 2 powi g" "0 \<le> K" "K \<le> 2 ^ 24" "0 \<le> g"
    by blast
  from float_of_nat_exact[OF k0 k1 this] obtain md td where
    d: "float_of_nat (nat ?k) = Fin md td" "fval md td = of_int ?k" by blast
  let ?e = "min tq td"
  define n where "n = mq * 2 ^ nat (tq - ?e) + (- md) * 2 ^ nat (td - ?e)"
  let ?flt = "fsub (Fin mq tq) (float_of_nat (unat ?dec))"
  have flt: "?flt = round32 n 1 ?e" by (simp add: fsub_def nd d(1) Let_def n_def)
  have "(of_int n :: rat) * 2 powi ?e = fval mq tq + fval (- md) td"
    unfolding n_def by (rule aligned_sum_val)
  also have "fval (- md) td = - fval md td" by (simp add: fval_powi)
  finally have nv: "(of_int n :: rat) * 2 powi ?e = ?v - of_int ?k" using d(2) by simp
  have f0: "0 \<le> ?v - of_int ?k" by simp
  have f1: "?v - of_int ?k < 1" by linarith
  have "\<exists>mf tf. ?flt = Fin mf tf \<and> fval mf tf = ?v - of_int ?k"
  proof (cases "n = 0")
    case True
    have "(of_int n :: rat) * 2 powi ?e = 0" by (simp only: True of_int_0 mult_zero_left)
    then have z: "?v - of_int ?k = 0" unfolding nv .
    have "?flt = Fin 0 0" by (simp only: flt True round32_zero)
    moreover have "fval 0 0 = ?v - of_int ?k" by (simp only: z) (simp add: fval_def)
    ultimately show ?thesis by blast
  next
    case False
    have "0 \<le> (of_int n :: rat) * 2 powi ?e" using f0 by (simp only: nv)
    then have "0 \<le> (of_int n :: rat)" using powi_pos[of ?e] by (simp add: zero_le_mult_iff powi_not_neg)
    then have "0 \<le> n" by (simp only: of_int_0_le_iff)
    with False have npos: "0 < n" by simp
    have fpos: "0 < ?v - of_int ?k"
    proof -
      have "0 < (of_int n :: rat)" using npos by simp
      then have "0 < (of_int n :: rat) * 2 powi ?e" using powi_pos[of ?e] by (simp only: zero_less_mult_iff) simp
      then show ?thesis by (simp only: nv)
    qed
    have neg: "tq < 0"
    proof (rule ccontr)
      assume "\<not> tq < 0"
      then have "?v = of_int (mq * 2 ^ nat tq)" by (simp add: fval_def)
      then have "?v - of_int ?k = 0" by (simp only: floor_of_int)
      with fpos show False by simp
    qed
    let ?K = "mq mod 2 ^ nat (- tq)"
    have fr: "?v - of_int ?k = of_int ?K * 2 powi tq" using neg by (rule frac_fval)
    have Kpos: "0 < ?K"
    proof (rule ccontr)
      assume "\<not> 0 < ?K"
      moreover have "0 \<le> ?K" by simp
      ultimately have "?K = 0" by linarith
      with fr fpos show False by simp
    qed
    have "?K \<le> mq" using mq(1) by (simp add: zmod_le_nonneg_dividend)
    then have K24: "?K \<le> 2 ^ 24" using mq(2) by simp
    have "mq \<noteq> 0" using Kpos by auto
    then have tq: "- 149 \<le> tq" by (rule mq(3))
    have v: "(of_int n / of_int 1 * 2 powi ?e :: rat) = of_int ?K * 2 powi tq"
      using nv fr by simp
    have b: "(of_int ?K * 2 powi tq :: rat) \<le> 2 powi 0" using f1 fr by simp
    from fp_round_exact[OF npos _ _ tq Kpos K24 v b, of 128]
    show ?thesis using flt fr by (auto simp: round32_def)
  qed
  then obtain mf tf where f: "?flt = Fin mf tf" "fval mf tf = ?v - of_int ?k" by blast
  have "set_rate s rate = Inr (s\<lparr>d_dec_rate := ?dec, d_flt_rate := ?flt\<rparr>)"
    by (simp add: set_rate_def Let_def q tu del: ffloor.simps)
  then show ?thesis using ud f f0 f1
    by (intro exI[of _ ?dec] exI[of _ ?flt]) simp
qed

theorem set_rate_spec_witness:
  "fless (Fin 0 0) (Fin 5 (- 1)) \<and>
   fdiv (float_of_nat (unat (d_int_rate engine4))) (Fin 5 (- 1)) = Fin 13421773 (- 23) \<and>
   fval 13421773 (- 23) < 2 ^ 32 \<and>
   (\<exists>dec flt. set_rate engine4 (Fin 5 (- 1))
                 = Inr (engine4\<lparr>d_dec_rate := dec, d_flt_rate := flt\<rparr>) \<and>
       uint dec = \<lfloor>fval 13421773 (- 23)\<rfloor> \<and> finite_fp flt \<and>
       valof flt = fval 13421773 (- 23) - of_int \<lfloor>fval 13421773 (- 23)\<rfloor> \<and>
       0 \<le> valof flt \<and> valof flt < 1)"
proof -
  have a: "fless (Fin 0 0) (Fin 5 (- 1))" by simp
  have b: "fdiv (float_of_nat (unat (d_int_rate engine4))) (Fin 5 (- 1)) = Fin 13421773 (- 23)"
    by code_simp
  have c: "fval 13421773 (- 23) < 2 ^ 32" by (simp add: fval_def)
  from set_rate_spec[OF a b c] a b c show ?thesis by blast
qed

text \<open>
  C7 as stated fails. With one filter and the rate \<open>2 ^ - 33\<close> the quotient is
  \<open>2 ^ 33\<close>, which \<^verbatim>\<open>unsigned int\<close> cannot hold: the conversion is undefined and no
  state results. With one filter and the float nearest to \<open>1/3\<close> (which is above
  \<open>1/3\<close>) the single precision quotient rounds to \<open>3\<close>: the decimation rate is
  set to \<open>3\<close>, the floor of the exact quotient is \<open>2\<close>.
\<close>

theorem set_rate_quotient_out_of_range:
  "fless (Fin 0 0) (Fin 1 (- 33)) \<and> set_rate engine1 (Fin 1 (- 33)) = Inl Undefined \<and>
   fless (Fin 0 0) (Fin 11184811 (- 25)) \<and>
   set_rate engine1 (Fin 11184811 (- 25)) = Inr (engine1\<lparr>d_dec_rate := 3, d_flt_rate := Fin 0 0\<rparr>) \<and>
   \<lfloor>1 / fval 11184811 (- 25)\<rfloor> = 2"
  by code_simp

section \<open>Filtering\<close>

lemma engine4_constructed:
  "pfb_arb_resampler_ccf (Fin 1 2) [Fin 1 0, Fin 2 0, Fin 4 0, Fin 8 0] 4 = Inr engine4"
  by code_simp

lemma stalled4_constructed:
  "pfb_arb_resampler_ccf PInf [Fin 1 0, Fin 2 0, Fin 4 0, Fin 8 0] 4 = Inr stalled4"
  by code_simp


text \<open>
  C10. With \<open>nitems = 0\<close> on the engine built for rate 4 with four filters, the body
  of \<^verbatim>\<open>filter\<close> writes nothing, reads nothing and leaves the state unchanged, and
  the call then flows off the end of the function without a \<^verbatim>\<open>return\<close>: its
  behaviour is undefined.
\<close>

theorem filter_nothing_requested:
  "filter_body tag_fir engine4 Map.empty 0 =
     Some (Inr \<lparr>state = engine4,
                 final = \<lparr>l_i = 0, l_count = 0, l_j = d_last_filter engine4,
                           l_out = Map.empty, l_reads = []\<rparr>\<rparr>) \<and>
   filter_kernel tag_fir engine4 Map.empty 0 = Some (Inl Undefined)"
  by (simp add: filter_kernel_def filter_body_def outer_loop.simps)

text \<open>
  C1. At one requested sample, the engine built for rate 4 with four filters writes
  four samples, \<open>output[0]\<close> to \<open>output[3]\<close>: the inner loop runs until the filter
  index leaves the bank and never compares \<open>i\<close> with \<open>nitems\<close>. No value is
  returned: the call flows off the end of the function.
\<close>

theorem filter_writes_past_nitems:
  "(case filter_body tag_fir engine4 Map.empty 1 of
      Some (Inr r) \<Rightarrow>
        l_i (final r) = 4 \<and> l_count (final r) = 1 \<and>
        map (map_option cval \<circ> l_out (final r)) [0, 1, 2, 3, 4] =
          [Some (1, 0), Some (2, 0), Some (4, 0), Some (8, 0), None]
    | _ \<Rightarrow> False) \<and>
   filter_kernel tag_fir engine4 Map.empty 1 = Some (Inl Undefined)"
proof -
  have body: "(case filter_body tag_fir engine4 Map.empty 1 of
      Some (Inr r) \<Rightarrow>
        l_i (final r) = 4 \<and> l_count (final r) = 1 \<and>
        map (map_option cval \<circ> l_out (final r)) [0, 1, 2, 3, 4] =
          [Some (1, 0), Some (2, 0), Some (4, 0), Some (8, 0), None]
    | _ \<Rightarrow> False)"
    by code_simp
  then obtain r where "filter_body tag_fir engine4 Map.empty 1 = Some (Inr r)"
    by (auto split: option.splits sum.splits)
  then have "filter_kernel tag_fir engine4 Map.empty 1 = Some (Inl Undefined)"
    by (simp add: filter_kernel_def)
  with body show ?thesis by (rule conjI)
qed

text \<open>
  C2. Two samples requested at once against one sample requested twice, the second
  call continuing at \<open>output + 1\<close> and at the input cursor the first call reached:
  the single call leaves \<open>output[1]\<close> to the filter 1 at input offset 0 and
  consumes one input sample, the two calls leave it to the filter 0 at input offset
  1, write \<open>output[4]\<close> as well and consume two.
\<close>

theorem filter_split_differs:
  "(case (filter_body tag_fir engine4 Map.empty 2, filter_body tag_fir engine4 Map.empty 1) of
      (Some (Inr r), Some (Inr r1)) \<Rightarrow>
        (case filter_body (\<lambda>taps k. tag_fir taps (l_count (final r1) + k)) (state r1)
                (\<lambda>k. l_out (final r1) (k + 1)) 1 of
           Some (Inr r2) \<Rightarrow>
             map (map_option cval \<circ> l_out (final r)) [0, 1, 2, 3, 4] =
               [Some (1, 0), Some (2, 0), Some (4, 0), Some (8, 0), None] \<and>
             map (\<lambda>k. map_option cval (l_out (final r2) (k - 1))) [0, 1, 2, 3, 4] =
               [Some (1, 0), Some (1, 1), Some (2, 1), Some (4, 1), Some (8, 1)] \<and>
             l_count (final r) = 1 \<and> l_count (final r1) + l_count (final r2) = 2
         | _ \<Rightarrow> False)
    | _ \<Rightarrow> False)"
  by code_simp

subsection \<open>Engines with other rates\<close>

lemma half4_set: "set_rate engine4 (Fin 8 0) = Inr half4" by code_simp

lemma fast4_set: "set_rate engine4 (Fin 1 (- 29)) = Inr fast4"
proof -
  have a: "fdiv (float_of_nat 4) (Fin 1 (- 29)) = Fin 8388608 8" by code_simp
  have b: "to_uint (ffloor (Fin 8388608 8)) = Some 2147483648" by code_simp
  have c: "float_of_nat 2147483648 = Fin 8388608 8" by (simp add: float_of_nat_def) code_simp
  have d: "fsub (Fin 8388608 8) (Fin 8388608 8) = Fin 0 0" by code_simp
  show ?thesis by (simp add: set_rate_def Let_def engine4_def fast4_def a b c d del: ffloor.simps)
qed

lemma slow1_reached:
  "(case pfb_arb_resampler_ccf (Fin 5 (- 1)) [Fin 1 0, Fin 2 0] 1 of
      Inr e \<Rightarrow> (case filter_body tag_fir e Map.empty 1 of
                  Some (Inr r) \<Rightarrow> set_rate (state r) (Fin 1 60) = Inr slow1
                | _ \<Rightarrow> False)
    | _ \<Rightarrow> False)"
  by code_simp

subsection \<open>The accumulator\<close>




















subsection \<open>Termination\<close>














text \<open>The decimation rate that \<^verbatim>\<open>set_rate\<close> stores is the floor of a float below
  \<open>2 ^ 32\<close>: it is at most \<open>2 ^ 32 - 256\<close>.\<close>

lemma set_rate_dec_bound:
  assumes "set_rate s rate = Inr s'"
  shows "uint (d_dec_rate s') \<le> 4294967040"
proof -
  let ?q = "fdiv (float_of_nat (unat (d_int_rate s))) rate"
  from assms obtain dec where d: "to_uint (ffloor ?q) = Some dec" "d_dec_rate s' = dec"
    by (auto simp: set_rate_def Let_def split: option.splits simp del: ffloor.simps)
  obtain mq tq where q: "?q = Fin mq tq" using d(1) by (cases ?q) (simp_all add: to_uint_def)
  have fl: "0 \<le> \<lfloor>fval mq tq\<rfloor>" "\<lfloor>fval mq tq\<rfloor> < 2 ^ 32" "dec = word_of_int \<lfloor>fval mq tq\<rfloor>"
    using d(1) unfolding q to_uint_ffloor by (simp_all split: if_splits)
  have ud: "uint dec = \<lfloor>fval mq tq\<rfloor>"
    using fl by (simp add: uint_word_of_int take_bit_int_eq_self)
  have "unat (d_int_rate s) < 2 ^ 32" using unsigned_less[of "d_int_rate s"] by simp
  from float_of_nat_fin[OF this] obtain mN tN where
    N: "float_of_nat (unat (d_int_rate s)) = Fin mN tN" by blast
  have wf: "\<bar>mq\<bar> \<le> 2 ^ 24"
  proof (cases rate)
    case (Fin m e)
    show ?thesis
    proof (cases "m = 0")
      case True
      with q show ?thesis by (simp add: N Fin fdiv_def split: if_splits)
    next
      case False
      then have "fp_round 24 (- 149) 128 (mN * sgn m) \<bar>m\<bar> (tN - e) = Fin mq tq"
        using q by (simp add: N Fin fdiv_def round32_def)
      moreover have "0 < \<bar>m\<bar>" using False by simp
      ultimately show ?thesis using fp_round_wf[of "\<bar>m\<bar>" 24 "- 149" 128 "mN * sgn m" "tN - e" mq tq]
        by simp
    qed
  next
    case PInf
    with q show ?thesis by (simp add: N fdiv_def)
  next
    case NInf
    with q show ?thesis by (simp add: N fdiv_def)
  next
    case NaN
    with q show ?thesis by (simp add: N fdiv_def)
  qed
  have "\<lfloor>fval mq tq\<rfloor> \<le> 4294967040"
  proof (cases "tq \<le> 7")
    case True
    have "(of_int mq :: rat) \<le> of_int (2 ^ 24)" using wf by (simp only: of_int_le_iff) (simp?)
    moreover have "(2::rat) powi tq \<le> 2 powi 7" using True by (rule powi_mono)
    ultimately have "(of_int mq :: rat) * 2 powi tq \<le> of_int (2 ^ 24) * 2 powi 7"
      by (intro mult_mono) simp_all
    also have "\<dots> = of_int (2 ^ 31)" by simp
    finally have "fval mq tq \<le> of_int (2 ^ 31)" by (simp only: fval_powi)
    then have "\<lfloor>fval mq tq\<rfloor> \<le> \<lfloor>of_int (2 ^ 31) :: rat\<rfloor>" by (rule floor_mono)
    then show ?thesis by (simp only: floor_of_int) (simp?)
  next
    case False
    then have t: "0 \<le> tq" "nat tq = nat (tq - 8) + 8" by simp_all
    let ?Z = "mq * 2 ^ nat (tq - 8)"
    have "fval mq tq = of_int (mq * 2 ^ nat tq)" using t(1) by (rule fval_floor_nonneg_exp)
    then have "\<lfloor>fval mq tq\<rfloor> = mq * 2 ^ nat tq" by (simp only: floor_of_int)
    also have "\<dots> = ?Z * 256" by (simp only: t(2) power_add) (simp?)
    finally have e: "\<lfloor>fval mq tq\<rfloor> = ?Z * 256" .
    with fl(2) have "?Z * 256 < 16777216 * 256" by simp
    then have "?Z < 16777216" by simp
    then have "?Z * 256 \<le> 16777215 * 256" by simp
    with e show ?thesis by simp
  qed
  then show ?thesis by (simp only: d(2) ud)
qed

section \<open>Phase\<close>

lemma engine9_constructed:
  "pfb_arb_resampler_ccf (Fin 9 0) [Fin 1 0, Fin 2 0] 9 = Inr engine9"
  by code_simp

lemma set_rate_keeps_ranges:
  "set_rate s rate = Inr s' \<Longrightarrow>
     d_last_filter s' = d_last_filter s \<and> d_acc s' = d_acc s \<and> d_int_rate s' = d_int_rate s"
  by (auto simp: set_rate_def Let_def split: option.splits)

lemma set_taps_keeps_ranges:
  "set_taps s taps = Inr s' \<Longrightarrow>
     d_last_filter s' = d_last_filter s \<and> d_acc s' = d_acc s \<and> d_int_rate s' = d_int_rate s"
  by (auto simp: set_taps_def split: sum.splits prod.splits)

text \<open>
  C8. \<open>below_two_pi\<close> lies in \<open>[0, 2\<pi>)\<close> and passes the guard of \<^verbatim>\<open>set_phase\<close>. On the
  engine of nine filters the single precision quotient \<open>ph / ph_diff\<close> rounds up to
  \<open>9\<close>: \<^verbatim>\<open>set_phase\<close> succeeds and sets \<open>d_last_filter = 9\<close>, while the floor of
  the exact quotient \<open>ph / (2\<pi>/9)\<close> is \<open>8\<close>.
\<close>

theorem set_phase_rounds_up_to_bank_size:
  "fle (Fin 0 0) below_two_pi \<and> fless below_two_pi two_pi \<and>
   set_phase engine9 below_two_pi = Inr (engine9\<lparr>d_last_filter := 9\<rparr>) \<and>
   \<lfloor>valof below_two_pi / (valof two_pi / 9)\<rfloor> = 8"
  by code_simp

text \<open>
  C4. After \<^verbatim>\<open>set_phase\<close> with \<open>below_two_pi\<close> on the engine that the constructor
  builds for nine filters, \<open>d_last_filter\<close> equals \<open>d_int_rate\<close>: the filter index is
  outside \<open>[0, N)\<close>.
\<close>

theorem set_phase_leaves_index_range:
  "pfb_arb_resampler_ccf (Fin 9 0) [Fin 1 0, Fin 2 0] 9 = Inr engine9 \<and>
   map_sum id (\<lambda>s. (d_last_filter s, d_int_rate s)) (set_phase engine9 below_two_pi)
     = Inr (9, 9)"
  by code_simp

end
